theory Spec2Isabelle
  imports Main
begin

section \<open>Data model of \<open>src/render/VisualElement.ts\<close>\<close>

text \<open>
  A \<open>VisualElement\<close> is a mutable object that shares two things with every other
  node: the \<open>MotionValue\<close> objects bound to it and the global frame clock
  (\<open>framesync\<close>). The embedding therefore keeps all objects in one store, the
  \<open>world\<close>: nodes and motion values live at addresses (natural numbers), and every
  method of the class is a function that takes the address of \<open>this\<close> and the
  world and returns the new world. A method that can throw returns \<open>error + world\<close>.
\<close>

type_synonym key = string

text \<open>A resolved value, \<open>string | number\<close> in the source.\<close>

datatype val = Str string | Num int

text \<open>
  The closures the class hands to a \<open>MotionValue\<close>: the \<open>onChange\<close> closure
  built by \<open>subscribeToValue\<close> (it captures \<open>this\<close> and \<open>key\<close>), and the
  instance property \<open>this.scheduleRender\<close>.
\<close>

datatype subscriber = OnChange nat key | ScheduleRender nat

text \<open>
  The function objects the class hands to the frame clock, which compares them by
  identity: the instance properties \<open>this.update\<close> and \<open>this.triggerRender\<close>
  (arrow functions, one per node), and the method \<open>this.render\<close>, a different
  function object from \<open>this.triggerRender\<close> (kept per node here; the class never
  schedules it, it only passes it to \<open>cancelSync.render\<close>).
\<close>

datatype process = Update nat | TriggerRender nat | RenderMethod nat

text \<open>
  \<open>ConfigurationError\<close>: the \<open>Error\<close> thrown by \<open>invariant\<close> in \<open>mount\<close>;
  \<open>TypeError\<close>: calling \<open>this.config.onUpdate!\<close> when it is \<open>undefined\<close>.
\<close>

datatype error = ConfigurationError | TypeError

text \<open>
  The unsubscription closure stored in \<open>valueSubscriptions\<close>: it captures the two
  closures returned by \<open>value.onChange\<close> and \<open>value.onRenderRequest\<close>, that is
  the motion value and the two subscriptions made on it.
\<close>

datatype unsubscribe = Unsubscribe nat nat nat

text \<open>\<open>VisualElementConfig\<close>: the one option the class reads, a callback identity.\<close>

record config =
  onUpdate :: "nat option"

text \<open>A React \<open>Ref\<close>: a callback or an object with a \<open>current\<close> field.\<close>

datatype ext_ref = RefFunction nat | RefObject nat

text \<open>
  What can stand where the class expects the rendered instance (its type parameter
  \<open>E\<close> is \<open>any\<close>): \<open>undefined\<close>, \<open>null\<close>, one of the other falsy values
  (\<open>false\<close>, \<open>0\<close>, the empty string, \<open>NaN\<close>; \<open>-0\<close> and \<open>0n\<close> behave as \<open>0\<close>), or a
  truthy value, the instance proper. The class only ever tests such a value for
  truthiness.
\<close>

datatype falsy = JsFalse | JsZero | JsEmptyString | JsNaN

datatype 'e elem = Undefined | Null | Falsy falsy | Instance 'e

fun truthy :: "'e elem \<Rightarrow> bool" where
  "truthy (Instance e) = True"
| "truthy Undefined = False"
| "truthy Null = False"
| "truthy (Falsy f) = False"

text \<open>
  The fields of the class. \<open>element\<close> is \<open>undefined\<close> until \<open>mount\<close> assigns it;
  \<open>values\<close> is a JavaScript \<open>Map\<close>, kept as an association list in insertion order
  (field \<open>values_map\<close>); \<open>latest\<close> is a plain object, kept as the map of its own
  properties.
\<close>

record 'e visual_element =
  parent :: "nat option"
  element :: "'e elem"
  latest :: "key \<rightharpoonup> val"
  values_map :: "(key \<times> nat) list"
  valueSubscriptions :: "key \<rightharpoonup> unsubscribe"
  externalRef :: "ext_ref option"
  config :: config
  current :: "'e elem"
  depth :: nat

text \<open>
  Modelled from the spec: \<open>MotionValue\<close> (\<open>../value\<close>) is not among the sources.
  The spec gives it a current reading and two lists of subscribers, for change and for
  render-request notifications; a subscription is identified by a fresh number, so that
  unsubscribing removes exactly the subscription that returned the handle.
\<close>

record motion_value =
  reading :: val
  updateSubscribers :: "(nat \<times> subscriber) list"
  renderSubscribers :: "(nat \<times> subscriber) list"

text \<open>
  What the opaque callbacks of the environment were called with: the abstract
  \<open>render()\<close> of a node, the user's \<open>onUpdate\<close> (with the snapshot it received),
  and an external callback ref.
\<close>

datatype 'e event =
    RenderCall nat
  | OnUpdateCall nat "key \<rightharpoonup> val"
  | RefCall nat "'e elem"

text \<open>
  The store. \<open>updateQueue\<close> and \<open>renderQueue\<close> are the two phases of the frame
  clock's next tick; \<open>refCells\<close> holds the \<open>current\<close> field of external ref objects.
\<close>

record 'e world =
  nodes :: "nat \<Rightarrow> 'e visual_element"
  next_node :: nat
  mvs :: "nat \<Rightarrow> motion_value"
  next_mv :: nat
  next_sub :: nat
  updateQueue :: "process list"
  renderQueue :: "process list"
  refCells :: "nat \<Rightarrow> 'e elem"
  trace :: "'e event list"

definition upd_node :: "nat \<Rightarrow> ('e visual_element \<Rightarrow> 'e visual_element) \<Rightarrow> 'e world \<Rightarrow> 'e world" where
  "upd_node n f w = w\<lparr>nodes := (nodes w)(n := f (nodes w n))\<rparr>"

definition upd_mv :: "nat \<Rightarrow> (motion_value \<Rightarrow> motion_value) \<Rightarrow> 'e world \<Rightarrow> 'e world" where
  "upd_mv m f w = w\<lparr>mvs := (mvs w)(m := f (mvs w m))\<rparr>"

subsection \<open>The JavaScript \<open>Map\<close>\<close>

text \<open>
  \<open>Map.set\<close> keeps the position of a key that is present and appends a new one;
  \<open>Map.delete\<close> removes the entry; \<open>Map.get\<close> and \<open>Map.has\<close> look a key up.
\<close>

fun Map_set :: "'k \<Rightarrow> 'v \<Rightarrow> ('k \<times> 'v) list \<Rightarrow> ('k \<times> 'v) list" where
  "Map_set k v [] = [(k, v)]"
| "Map_set k v (p # ps) = (if fst p = k then (k, v) # ps else p # Map_set k v ps)"

definition Map_delete :: "'k \<Rightarrow> ('k \<times> 'v) list \<Rightarrow> ('k \<times> 'v) list" where
  "Map_delete k ps = filter (\<lambda>p. fst p \<noteq> k) ps"

definition Map_get :: "'k \<Rightarrow> ('k \<times> 'v) list \<Rightarrow> 'v option" where
  "Map_get k ps = map_of ps k"

definition Map_has :: "'k \<Rightarrow> ('k \<times> 'v) list \<Rightarrow> bool" where
  "Map_has k ps = (map_of ps k \<noteq> None)"

subsection \<open>The plain object\<close>

text \<open>
  \<open>latest\<close> is created as \<open>{}\<close>, so it inherits from \<open>Object.prototype\<close>. An
  assignment \<open>latest[key] = v\<close> creates or overwrites the own property \<open>key\<close>, with
  one exception: when the key is \<open>__proto__\<close> and the object has no own property of
  that name, the assignment runs the setter inherited from \<open>Object.prototype\<close>, which
  ignores a string or a number, so no own property is stored. \<open>delete latest[key]\<close>
  removes the own property when there is one.
\<close>

definition object_set :: "key \<Rightarrow> 'v \<Rightarrow> (key \<rightharpoonup> 'v) \<Rightarrow> (key \<rightharpoonup> 'v)" where
  "object_set k x obj = (if k = ''__proto__'' \<and> obj k = None then obj else obj(k \<mapsto> x))"

definition object_delete :: "key \<Rightarrow> (key \<rightharpoonup> 'v) \<Rightarrow> (key \<rightharpoonup> 'v)" where
  "object_delete k obj = obj(k := None)"

text \<open>The entries of a mapping that assignments to the object store.\<close>

definition stored_entries :: "(key \<rightharpoonup> 'v) \<Rightarrow> (key \<times> 'v) list \<Rightarrow> (key \<times> 'v) list" where
  "stored_entries obj kvs =
     (if obj ''__proto__'' = None then filter (\<lambda>kv. fst kv \<noteq> ''__proto__'') kvs else kvs)"

subsection \<open>The frame clock\<close>

text \<open>
  Modelled from the spec: \<open>framesync\<close> is an external library. A phase is a queue of
  function objects; scheduling one that is already queued adds nothing, cancelling
  removes the entries of that identity and no other.
\<close>

definition sync_update :: "process \<Rightarrow> 'e world \<Rightarrow> 'e world" where
  "sync_update p w = (if p \<in> set (updateQueue w) then w else w\<lparr>updateQueue := updateQueue w @ [p]\<rparr>)"

definition sync_render :: "process \<Rightarrow> 'e world \<Rightarrow> 'e world" where
  "sync_render p w = (if p \<in> set (renderQueue w) then w else w\<lparr>renderQueue := renderQueue w @ [p]\<rparr>)"

definition cancelSync_update :: "process \<Rightarrow> 'e world \<Rightarrow> 'e world" where
  "cancelSync_update p w = w\<lparr>updateQueue := removeAll p (updateQueue w)\<rparr>"

definition cancelSync_render :: "process \<Rightarrow> 'e world \<Rightarrow> 'e world" where
  "cancelSync_render p w = w\<lparr>renderQueue := removeAll p (renderQueue w)\<rparr>"

subsection \<open>The motion value\<close>

text \<open>
  Modelled from the spec: the constructor and the three capabilities the class consumes,
  \<open>get()\<close>, \<open>onChange(callback)\<close> and \<open>onRenderRequest(callback)\<close>, the last two
  returning the closure that removes the subscription.
\<close>

definition new_MotionValue :: "val \<Rightarrow> 'e world \<Rightarrow> nat \<times> 'e world" where
  "new_MotionValue init w =
     (next_mv w,
      w\<lparr>mvs := (mvs w)(next_mv w := \<lparr>reading = init, updateSubscribers = [], renderSubscribers = []\<rparr>),
        next_mv := Suc (next_mv w)\<rparr>)"

definition MotionValue_get :: "nat \<Rightarrow> 'e world \<Rightarrow> val" where
  "MotionValue_get m w = reading (mvs w m)"

definition MotionValue_onChange :: "nat \<Rightarrow> subscriber \<Rightarrow> 'e world \<Rightarrow> nat \<times> 'e world" where
  "MotionValue_onChange m cb w =
     (next_sub w,
      upd_mv m (\<lambda>v. v\<lparr>updateSubscribers := updateSubscribers v @ [(next_sub w, cb)]\<rparr>)
        (w\<lparr>next_sub := Suc (next_sub w)\<rparr>))"

definition MotionValue_onRenderRequest :: "nat \<Rightarrow> subscriber \<Rightarrow> 'e world \<Rightarrow> nat \<times> 'e world" where
  "MotionValue_onRenderRequest m cb w =
     (next_sub w,
      upd_mv m (\<lambda>v. v\<lparr>renderSubscribers := renderSubscribers v @ [(next_sub w, cb)]\<rparr>)
        (w\<lparr>next_sub := Suc (next_sub w)\<rparr>))"

definition unsubscribeOnChange :: "nat \<Rightarrow> nat \<Rightarrow> 'e world \<Rightarrow> 'e world" where
  "unsubscribeOnChange m s w =
     upd_mv m (\<lambda>v. v\<lparr>updateSubscribers := filter (\<lambda>p. fst p \<noteq> s) (updateSubscribers v)\<rparr>) w"

definition unsubscribeOnRender :: "nat \<Rightarrow> nat \<Rightarrow> 'e world \<Rightarrow> 'e world" where
  "unsubscribeOnRender m s w =
     upd_mv m (\<lambda>v. v\<lparr>renderSubscribers := filter (\<lambda>p. fst p \<noteq> s) (renderSubscribers v)\<rparr>) w"

section \<open>The methods of \<open>VisualElement\<close>\<close>

text \<open>
  The constructor: the node gets a fresh address; \<open>depth\<close> is read from the parent
  object when there is one.
\<close>

definition new_VisualElement :: "nat option \<Rightarrow> ext_ref option \<Rightarrow> 'e world \<Rightarrow> nat \<times> 'e world" where
  "new_VisualElement p r w =
     (next_node w,
      w\<lparr>nodes := (nodes w)(next_node w :=
           \<lparr>parent = p, element = Undefined, latest = Map.empty, values_map = [],
            valueSubscriptions = Map.empty, externalRef = r, config = \<lparr>onUpdate = None\<rparr>,
            current = Undefined,
            depth = (case p of Some q \<Rightarrow> depth (nodes w q) + 1 | None \<Rightarrow> 0)\<rparr>),
        next_node := Suc (next_node w)\<rparr>)"

definition hasValue :: "nat \<Rightarrow> key \<Rightarrow> 'e world \<Rightarrow> bool" where
  "hasValue n k w = Map_has k (values_map (nodes w n))"

definition getInstance :: "nat \<Rightarrow> 'e world \<Rightarrow> 'e elem" where
  "getInstance n w = element (nodes w n)"

text \<open>\<open>updateConfig(config = {})\<close>: the stored config is a copy of the argument.\<close>

definition updateConfig :: "nat \<Rightarrow> config option \<Rightarrow> 'e world \<Rightarrow> 'e world" where
  "updateConfig n c w =
     upd_node n (\<lambda>nd. nd\<lparr>config := (case c of None \<Rightarrow> \<lparr>onUpdate = None\<rparr> | Some c' \<Rightarrow> c')\<rparr>) w"

text \<open>
  \<open>update = () => this.config.onUpdate!(this.latest)\<close>: the non-null assertion is
  erased at run time, so calling an absent \<open>onUpdate\<close> throws a \<open>TypeError\<close>.
\<close>

definition update :: "nat \<Rightarrow> 'e world \<Rightarrow> error + 'e world" where
  "update n w =
     (case onUpdate (config (nodes w n)) of
        None \<Rightarrow> Inl TypeError
      | Some f \<Rightarrow> Inr (w\<lparr>trace := trace w @ [OnUpdateCall f (latest (nodes w n))]\<rparr>))"

text \<open>The abstract \<open>render()\<close>: the backend is opaque, the call is recorded.\<close>

definition render :: "nat \<Rightarrow> 'e world \<Rightarrow> 'e world" where
  "render n w = w\<lparr>trace := trace w @ [RenderCall n]\<rparr>"

definition triggerRender :: "nat \<Rightarrow> 'e world \<Rightarrow> 'e world" where
  "triggerRender n w = render n w"

definition scheduleRender :: "nat \<Rightarrow> 'e world \<Rightarrow> 'e world" where
  "scheduleRender n w = sync_render (TriggerRender n) w"

definition setSingleStaticValue :: "nat \<Rightarrow> key \<Rightarrow> val \<Rightarrow> 'e world \<Rightarrow> 'e world" where
  "setSingleStaticValue n k x w = upd_node n (\<lambda>nd. nd\<lparr>latest := object_set k x (latest nd)\<rparr>) w"

text \<open>
  \<open>setStaticValues(values, value?)\<close>: a string first argument selects the single-key
  branch (the source casts \<open>value\<close> to \<open>string | number\<close>), a mapping is walked with
  \<open>for (const key in values)\<close>.
\<close>

datatype static_values = Single key val | Batch "(key \<times> val) list"

definition setStaticValues :: "nat \<Rightarrow> static_values \<Rightarrow> 'e world \<Rightarrow> 'e world" where
  "setStaticValues n vs w =
     (case vs of
        Single k x \<Rightarrow> setSingleStaticValue n k x w
      | Batch kvs \<Rightarrow> fold (\<lambda>kv. setSingleStaticValue n (fst kv) (snd kv)) kvs w)"

text \<open>The body of the \<open>onChange\<close> closure of \<open>subscribeToValue\<close>.\<close>

definition onChange :: "nat \<Rightarrow> key \<Rightarrow> val \<Rightarrow> 'e world \<Rightarrow> 'e world" where
  "onChange n k x w =
     (let w1 = setSingleStaticValue n k x w;
          w2 = upd_node n (\<lambda>nd. nd\<lparr>latest := object_set k x (latest nd)\<rparr>) w1
      in if onUpdate (config (nodes w2 n)) \<noteq> None then sync_update (Update n) w2 else w2)"

text \<open>Calling a subscriber with the value the motion value passes to it.\<close>

fun call_subscriber :: "subscriber \<Rightarrow> val \<Rightarrow> 'e world \<Rightarrow> 'e world" where
  "call_subscriber (OnChange n k) x w = onChange n k x w"
| "call_subscriber (ScheduleRender n) x w = scheduleRender n w"

definition subscribeToValue :: "nat \<Rightarrow> key \<Rightarrow> nat \<Rightarrow> 'e world \<Rightarrow> 'e world" where
  "subscribeToValue n k m w =
     (let (unsubscribeOnChange', w1) = MotionValue_onChange m (OnChange n k) w;
          (unsubscribeOnRender', w2) = MotionValue_onRenderRequest m (ScheduleRender n) w1
      in upd_node n (\<lambda>nd. nd\<lparr>valueSubscriptions :=
           (valueSubscriptions nd)(k \<mapsto> Unsubscribe m unsubscribeOnChange' unsubscribeOnRender')\<rparr>) w2)"

text \<open>Calling the closure stored in \<open>valueSubscriptions\<close>.\<close>

fun call_unsubscribe :: "unsubscribe \<Rightarrow> 'e world \<Rightarrow> 'e world" where
  "call_unsubscribe (Unsubscribe m c r) w = unsubscribeOnRender m r (unsubscribeOnChange m c w)"

definition removeValue :: "nat \<Rightarrow> key \<Rightarrow> 'e world \<Rightarrow> 'e world" where
  "removeValue n k w =
     (let w1 = (case valueSubscriptions (nodes w n) k of
                  None \<Rightarrow> w
                | Some unsub \<Rightarrow> call_unsubscribe unsub w)
      in upd_node n (\<lambda>nd. nd\<lparr>values_map := Map_delete k (values_map nd),
                             latest := object_delete k (latest nd),
                             valueSubscriptions := (valueSubscriptions nd)(k := None)\<rparr>) w1)"

definition addValue :: "nat \<Rightarrow> key \<Rightarrow> nat \<Rightarrow> 'e world \<Rightarrow> 'e world" where
  "addValue n k m w =
     (let w1 = (if hasValue n k w then removeValue n k w else w);
          w2 = upd_node n (\<lambda>nd. nd\<lparr>values_map := Map_set k m (values_map nd)\<rparr>) w1;
          w3 = upd_node n (\<lambda>nd. nd\<lparr>latest := object_set k (MotionValue_get m w2) (latest nd)\<rparr>) w2
      in if truthy (element (nodes w3 n)) then subscribeToValue n k m w3 else w3)"

text \<open>
  \<open>getValue(key, defaultValue?)\<close>: \<open>None\<close> stands for \<open>undefined\<close>, both for the
  default and for the result.
\<close>

definition getValue :: "nat \<Rightarrow> key \<Rightarrow> val option \<Rightarrow> 'e world \<Rightarrow> nat option \<times> 'e world" where
  "getValue n k defaultValue w =
     (case Map_get k (values_map (nodes w n)) of
        Some m \<Rightarrow> (Some m, w)
      | None \<Rightarrow>
          (case defaultValue of
             None \<Rightarrow> (None, w)
           | Some d \<Rightarrow> (let (m, w1) = new_MotionValue d w in (Some m, addValue n k m w1))))"

text \<open>
  \<open>forEachValue(callback)\<close> is \<open>Map.forEach\<close>: the entries are visited in insertion
  order, and an entry deleted before its turn is not visited. The callbacks this class
  passes (subscribe, remove the current key) never add an entry, so entries added during
  the walk are not modelled.
\<close>

fun forEach_entries ::
  "nat \<Rightarrow> (nat \<Rightarrow> key \<Rightarrow> 'e world \<Rightarrow> 'e world) \<Rightarrow> (key \<times> nat) list \<Rightarrow> 'e world \<Rightarrow> 'e world" where
  "forEach_entries n f [] w = w"
| "forEach_entries n f (p # ps) w =
     (if p \<in> set (values_map (nodes w n))
      then forEach_entries n f ps (f (snd p) (fst p) w)
      else forEach_entries n f ps w)"

definition forEachValue :: "nat \<Rightarrow> (nat \<Rightarrow> key \<Rightarrow> 'e world \<Rightarrow> 'e world) \<Rightarrow> 'e world \<Rightarrow> 'e world" where
  "forEachValue n f w = forEach_entries n f (values_map (nodes w n)) w"

text \<open>
  Modelled from the spec: \<open>invariant\<close> comes from the external library
  \<open>hey-listen\<close>; it throws an \<open>Error\<close> with the given message when its check is
  false, which is the spec's configuration error.
\<close>

definition invariant :: "bool \<Rightarrow> error + unit" where
  "invariant check = (if check then Inr () else Inl ConfigurationError)"

text \<open>
  \<open>mount(element)\<close>: \<open>invariant(!!element, ...)\<close> throws for every falsy argument,
  \<open>null\<close> and \<open>undefined\<close> among them; otherwise the element is stored in
  \<open>element\<close> and \<open>current\<close> and every value of the map is subscribed to.
\<close>

definition mount :: "nat \<Rightarrow> 'e elem \<Rightarrow> 'e world \<Rightarrow> error + 'e world" where
  "mount n el w =
     (case invariant (truthy el) of
        Inl err \<Rightarrow> Inl err
      | Inr _ \<Rightarrow>
          Inr (forEachValue n (\<lambda>m k. subscribeToValue n k m)
                 (upd_node n (\<lambda>nd. nd\<lparr>element := el, current := el\<rparr>) w)))"

text \<open>
  \<open>unmount()\<close>: every value is removed, then \<open>this.update\<close> is cancelled in the
  update phase and \<open>this.render\<close> in the render phase.
\<close>

definition unmount :: "nat \<Rightarrow> 'e world \<Rightarrow> 'e world" where
  "unmount n w =
     cancelSync_render (RenderMethod n)
       (cancelSync_update (Update n)
          (forEachValue n (\<lambda>m k. removeValue n k) w))"

text \<open>
  \<open>ref(element)\<close>: \<open>element ? this.mount(element) : this.unmount()\<close>, so a truthy
  element is mounted and every falsy one unmounts; then the element is forwarded to the
  external ref, a callback or an object.
\<close>

definition ref :: "nat \<Rightarrow> 'e elem \<Rightarrow> 'e world \<Rightarrow> error + 'e world" where
  "ref n el w =
     (case (if truthy el then mount n el w else Inr (unmount n w)) of
        Inl err \<Rightarrow> Inl err
      | Inr w1 \<Rightarrow>
          Inr (case externalRef (nodes w1 n) of
                 None \<Rightarrow> w1
               | Some (RefFunction f) \<Rightarrow> w1\<lparr>trace := trace w1 @ [RefCall f el]\<rparr>
               | Some (RefObject r) \<Rightarrow> w1\<lparr>refCells := (refCells w1)(r := el)\<rparr>))"

section \<open>The environment: notifications and the tick\<close>

text \<open>
  Modelled from the spec: a motion value emits a change notification (its reading
  becomes \<open>x\<close> and every change subscriber is called with it, synchronously and in
  subscription order) or a render request (every render subscriber is called).
\<close>

definition MotionValue_change :: "nat \<Rightarrow> val \<Rightarrow> 'e world \<Rightarrow> 'e world" where
  "MotionValue_change m x w =
     fold (\<lambda>s. call_subscriber (snd s) x) (updateSubscribers (mvs w m))
       (upd_mv m (\<lambda>v. v\<lparr>reading := x\<rparr>) w)"

definition MotionValue_requestRender :: "nat \<Rightarrow> 'e world \<Rightarrow> 'e world" where
  "MotionValue_requestRender m w =
     fold (\<lambda>s. call_subscriber (snd s) (reading (mvs w m))) (renderSubscribers (mvs w m)) w"

text \<open>
  Modelled from the spec: one tick of the frame clock runs the update phase, then the
  render phase, and leaves both queues empty. A process that throws ends the tick.
  \<open>this.render\<close> is never scheduled by the class; run by the clock it would be the
  node's render.
\<close>

fun run_process :: "process \<Rightarrow> 'e world \<Rightarrow> error + 'e world" where
  "run_process (Update n) w = update n w"
| "run_process (TriggerRender n) w = Inr (triggerRender n w)"
| "run_process (RenderMethod n) w = Inr (render n w)"

fun run_all :: "process list \<Rightarrow> 'e world \<Rightarrow> error + 'e world" where
  "run_all [] w = Inr w"
| "run_all (p # ps) w = (case run_process p w of Inl err \<Rightarrow> Inl err | Inr w' \<Rightarrow> run_all ps w')"

definition tick :: "'e world \<Rightarrow> error + 'e world" where
  "tick w = run_all (updateQueue w @ renderQueue w) (w\<lparr>updateQueue := [], renderQueue := []\<rparr>)"

text \<open>The empty store: no node, no motion value, nothing scheduled.\<close>

definition init_world :: "'e world" where
  "init_world =
     \<lparr>nodes = (\<lambda>_. \<lparr>parent = None, element = Undefined, latest = Map.empty, values_map = [],
                     valueSubscriptions = Map.empty, externalRef = None,
                     config = \<lparr>onUpdate = None\<rparr>, current = Undefined, depth = 0\<rparr>),
      next_node = 0,
      mvs = (\<lambda>_. \<lparr>reading = Num 0, updateSubscribers = [], renderSubscribers = []\<rparr>),
      next_mv = 0, next_sub = 0, updateQueue = [], renderQueue = [],
      refCells = (\<lambda>_. Undefined), trace = []\<rparr>"

text \<open>
  Everything a client or the environment can do to the store, one call at a time. A call
  that throws has no successor state.
\<close>

datatype 'e action =
    DoNew "nat option" "ext_ref option"
  | DoNewMotionValue val
  | DoAddValue nat key nat
  | DoRemoveValue nat key
  | DoGetValue nat key "val option"
  | DoUpdateConfig nat "config option"
  | DoSetStaticValues nat static_values
  | DoScheduleRender nat
  | DoMount nat "'e elem"
  | DoUnmount nat
  | DoRef nat "'e elem"
  | DoChange nat val
  | DoRequestRender nat
  | DoTick

fun step :: "'e action \<Rightarrow> 'e world \<Rightarrow> error + 'e world" where
  "step (DoNew p r) w = Inr (snd (new_VisualElement p r w))"
| "step (DoNewMotionValue x) w = Inr (snd (new_MotionValue x w))"
| "step (DoAddValue n k m) w = Inr (addValue n k m w)"
| "step (DoRemoveValue n k) w = Inr (removeValue n k w)"
| "step (DoGetValue n k d) w = Inr (snd (getValue n k d w))"
| "step (DoUpdateConfig n c) w = Inr (updateConfig n c w)"
| "step (DoSetStaticValues n vs) w = Inr (setStaticValues n vs w)"
| "step (DoScheduleRender n) w = Inr (scheduleRender n w)"
| "step (DoMount n el) w = mount n el w"
| "step (DoUnmount n) w = Inr (unmount n w)"
| "step (DoRef n el) w = ref n el w"
| "step (DoChange m x) w = Inr (MotionValue_change m x w)"
| "step (DoRequestRender m) w = Inr (MotionValue_requestRender m w)"
| "step DoTick w = tick w"

fun run :: "'e action list \<Rightarrow> 'e world \<Rightarrow> error + 'e world" where
  "run [] w = Inr w"
| "run (a # as) w = (case step a w of Inl err \<Rightarrow> Inl err | Inr w' \<Rightarrow> run as w')"

section \<open>Observations on the store\<close>

text \<open>
  \<open>listens w n k m\<close>: motion value \<open>m\<close> holds a change subscription whose callback is
  the \<open>onChange\<close> closure of node \<open>n\<close> for key \<open>k\<close>, so a change of \<open>m\<close> writes
  \<open>latest[k]\<close> of \<open>n\<close>.
\<close>

definition listens :: "'e world \<Rightarrow> nat \<Rightarrow> key \<Rightarrow> nat \<Rightarrow> bool" where
  "listens w n k m = (OnChange n k \<in> snd ` set (updateSubscribers (mvs w m)))"

text \<open>
  \<open>subscribed w n k m\<close>: the node holds an unsubscription closure for \<open>k\<close>, made on
  \<open>m\<close>, and both subscriptions it would remove are live on \<open>m\<close>.
\<close>

definition subscribed :: "'e world \<Rightarrow> nat \<Rightarrow> key \<Rightarrow> nat \<Rightarrow> bool" where
  "subscribed w n k m =
     (case valueSubscriptions (nodes w n) k of
        None \<Rightarrow> False
      | Some (Unsubscribe m' c r) \<Rightarrow>
          m' = m \<and> (c, OnChange n k) \<in> set (updateSubscribers (mvs w m))
                 \<and> (r, ScheduleRender n) \<in> set (renderSubscribers (mvs w m)))"

text \<open>
  The unsubscription closures node \<open>n\<close> holds for the keys bound in its values map, in
  the order of the map: the closures \<open>unmount\<close> calls. A closure cancels the change
  subscription and the render subscription it captured.
\<close>

definition held_closures :: "'e world \<Rightarrow> nat \<Rightarrow> unsubscribe list" where
  "held_closures w n =
     concat (map (\<lambda>p. case valueSubscriptions (nodes w n) (fst p) of None \<Rightarrow> [] | Some u \<Rightarrow> [u])
       (values_map (nodes w n)))"

fun cancels_change :: "unsubscribe \<Rightarrow> nat \<Rightarrow> nat \<Rightarrow> bool" where
  "cancels_change (Unsubscribe m' c r) m s = (m' = m \<and> c = s)"

fun cancels_render :: "unsubscribe \<Rightarrow> nat \<Rightarrow> nat \<Rightarrow> bool" where
  "cancels_render (Unsubscribe m' c r) m s = (m' = m \<and> r = s)"

text \<open>
  \<open>tracked w n k\<close>: every live change subscription of node \<open>n\<close> for key \<open>k\<close>, on
  whatever motion value, is the one whose unsubscription closure the node holds for
  \<open>k\<close>. It fails once \<open>subscribeToValue\<close> has run twice for a binding, since the
  second closure replaces the first in \<open>valueSubscriptions\<close>.
\<close>

definition tracked :: "'e world \<Rightarrow> nat \<Rightarrow> key \<Rightarrow> bool" where
  "tracked w n k =
     (\<forall>m s. (s, OnChange n k) \<in> set (updateSubscribers (mvs w m)) \<longrightarrow>
        (\<exists>r. valueSubscriptions (nodes w n) k = Some (Unsubscribe m s r)))"


text \<open>The fields no method but the constructor assigns.\<close>

definition readonly_fields :: "'e visual_element \<Rightarrow> nat option \<times> ext_ref option \<times> nat" where
  "readonly_fields nd = (parent nd, externalRef nd, depth nd)"

text \<open>\<open>n\<close> nested constructions, each given the previous node as parent.\<close>

fun nest :: "nat \<Rightarrow> nat option \<Rightarrow> 'e world \<Rightarrow> nat option \<times> 'e world" where
  "nest 0 p w = (p, w)"
| "nest (Suc i) p w = (let (n, w') = new_VisualElement p None w in nest i (Some n) w')"

text \<open>
  The stores a program can build: from the empty store, by calls that return and that are
  addressed to nodes and motion values that exist.
\<close>

fun addressed :: "'e action \<Rightarrow> 'e world \<Rightarrow> bool" where
  "addressed (DoNew p r) w = (case p of None \<Rightarrow> True | Some q \<Rightarrow> q < next_node w)"
| "addressed (DoNewMotionValue x) w = True"
| "addressed (DoAddValue n k m) w = (n < next_node w \<and> m < next_mv w)"
| "addressed (DoRemoveValue n k) w = (n < next_node w)"
| "addressed (DoGetValue n k d) w = (n < next_node w)"
| "addressed (DoUpdateConfig n c) w = (n < next_node w)"
| "addressed (DoSetStaticValues n vs) w = (n < next_node w)"
| "addressed (DoScheduleRender n) w = (n < next_node w)"
| "addressed (DoMount n el) w = (n < next_node w)"
| "addressed (DoUnmount n) w = (n < next_node w)"
| "addressed (DoRef n el) w = (n < next_node w)"
| "addressed (DoChange m x) w = (m < next_mv w)"
| "addressed (DoRequestRender m) w = (m < next_mv w)"
| "addressed DoTick w = True"

inductive reachable :: "'e world \<Rightarrow> bool" where
  reachable_init: "reachable init_world"
| reachable_step: "reachable w \<Longrightarrow> addressed a w \<Longrightarrow> step a w = Inr w' \<Longrightarrow> reachable w'"

text \<open>
  Every change subscription made by a node belongs to a node that exists and holds an
  instance.
\<close>

definition listeners_mounted :: "'e world \<Rightarrow> bool" where
  "listeners_mounted w =
     (\<forall>m s n k. (s, OnChange n k) \<in> set (updateSubscribers (mvs w m)) \<longrightarrow>
        n < next_node w \<and> truthy (element (nodes w n)))"

text \<open>
  The bookkeeping of one node is sound: its subscriptions are tracked for every key, it
  holds a closure only for keys that are bound, and the keys of its values map are
  distinct.
\<close>

definition node_tracked :: "'e world \<Rightarrow> nat \<Rightarrow> bool" where
  "node_tracked w n =
     ((\<forall>k. tracked w n k) \<and>
      (\<forall>k. valueSubscriptions (nodes w n) k \<noteq> None \<longrightarrow> hasValue n k w) \<and>
      distinct (map fst (values_map (nodes w n))))"

definition bindings_tracked :: "'e world \<Rightarrow> bool" where
  "bindings_tracked w = (\<forall>n. node_tracked w n)"

text \<open>
  A mount is fresh when the node holds no unsubscription closure at that moment: no
  binding of the node is subscribed yet. The disciplined stores are those built by calls
  in which every mount is fresh.
\<close>

fun fresh_mount :: "'e action \<Rightarrow> 'e world \<Rightarrow> bool" where
  "fresh_mount (DoMount n el) w = (valueSubscriptions (nodes w n) = Map.empty)"
| "fresh_mount (DoRef n el) w = (if truthy el then valueSubscriptions (nodes w n) = Map.empty else True)"
| "fresh_mount a w = True"

inductive disciplined :: "'e world \<Rightarrow> bool" where
  disciplined_init: "disciplined init_world"
| disciplined_step:
    "disciplined w \<Longrightarrow> addressed a w \<Longrightarrow> fresh_mount a w \<Longrightarrow> step a w = Inr w' \<Longrightarrow> disciplined w'"

section \<open>Example stores\<close>

text \<open>
  Stores built from the empty one by calls of the public interface, used to run the model.
  Node 0 is the only node and \<open>x\<close> the only key.
\<close>

text \<open>A node never mounted, with a value of reading 1 bound to \<open>x\<close>.\<close>

definition bound_store :: "unit world" where
  "bound_store =
     (case run [DoNew None None, DoNewMotionValue (Num 1), DoAddValue 0 ''x'' 0] init_world of
        Inr w \<Rightarrow> w | Inl _ \<Rightarrow> init_world)"

text \<open>A node mounted and then unmounted, with no value bound.\<close>

definition unmounted_store :: "unit world" where
  "unmounted_store =
     (case run [DoNew None None, DoNewMotionValue (Num 1), DoRef 0 (Instance ()), DoRef 0 Null] init_world of
        Inr w \<Rightarrow> w | Inl _ \<Rightarrow> init_world)"

text \<open>A node mounted once, then given the value of reading 1 under \<open>x\<close>.\<close>

definition mounted_store :: "unit world" where
  "mounted_store =
     (case run [DoNew None None, DoNewMotionValue (Num 1), DoNewMotionValue (Num 2),
                DoRef 0 (Instance ()), DoAddValue 0 ''x'' 0] init_world of
        Inr w \<Rightarrow> w | Inl _ \<Rightarrow> init_world)"

text \<open>
  A node mounted, unmounted, given the value of reading 1 under \<open>x\<close>, mounted again,
  and given the value of reading 2 under \<open>x\<close>.
\<close>

definition resubscribed_store :: "unit world" where
  "resubscribed_store =
     (case run [DoNew None None, DoNewMotionValue (Num 1), DoNewMotionValue (Num 2),
                DoRef 0 (Instance ()), DoRef 0 Null, DoAddValue 0 ''x'' 0, DoRef 0 (Instance ()),
                DoAddValue 0 ''x'' 1] init_world of
        Inr w \<Rightarrow> w | Inl _ \<Rightarrow> init_world)"

text \<open>A node with \<open>onUpdate\<close> set and a value bound to \<open>x\<close>, mounted.\<close>

definition updating_store :: "unit world" where
  "updating_store =
     (case run [DoNew None None, DoNewMotionValue (Num 1), DoUpdateConfig 0 (Some \<lparr>onUpdate = Some 7\<rparr>),
                DoAddValue 0 ''x'' 0, DoRef 0 (Instance ())] init_world of
        Inr w \<Rightarrow> w | Inl _ \<Rightarrow> init_world)"

section \<open>What each method changes\<close>

text \<open>Unfolding every method, to run the model on a concrete store.\<close>

lemmas run_defs =
  init_world_def new_VisualElement_def new_MotionValue_def ref_def mount_def invariant_def unmount_def
  forEachValue_def upd_node_def upd_mv_def scheduleRender_def sync_render_def sync_update_def
  cancelSync_render_def cancelSync_update_def tick_def triggerRender_def render_def update_def
  addValue_def removeValue_def getValue_def hasValue_def getInstance_def updateConfig_def
  setStaticValues_def setSingleStaticValue_def Map_has_def Map_get_def Map_delete_def
  subscribeToValue_def MotionValue_onChange_def MotionValue_onRenderRequest_def
  MotionValue_get_def MotionValue_change_def MotionValue_requestRender_def onChange_def
  unsubscribeOnChange_def unsubscribeOnRender_def listens_def subscribed_def Let_def
  object_set_def object_delete_def stored_entries_def held_closures_def


lemma nodes_subscribeToValue:
  "nodes (subscribeToValue n k m w) =
     (nodes w)(n := (nodes w n)\<lparr>valueSubscriptions :=
        (valueSubscriptions (nodes w n))(k \<mapsto> Unsubscribe m (next_sub w) (Suc (next_sub w)))\<rparr>)"
  by (simp add: subscribeToValue_def MotionValue_onChange_def MotionValue_onRenderRequest_def
      upd_node_def upd_mv_def)

lemma mvs_subscribeToValue:
  "mvs (subscribeToValue n k m w) =
     (mvs w)(m := (mvs w m)\<lparr>
        updateSubscribers := updateSubscribers (mvs w m) @ [(next_sub w, OnChange n k)],
        renderSubscribers := renderSubscribers (mvs w m) @ [(Suc (next_sub w), ScheduleRender n)]\<rparr>)"
  by (simp add: subscribeToValue_def MotionValue_onChange_def MotionValue_onRenderRequest_def
      upd_node_def upd_mv_def)

lemma rest_subscribeToValue:
  "updateQueue (subscribeToValue n k m w) = updateQueue w"
  "renderQueue (subscribeToValue n k m w) = renderQueue w"
  "trace (subscribeToValue n k m w) = trace w"
  "refCells (subscribeToValue n k m w) = refCells w"
  "next_node (subscribeToValue n k m w) = next_node w"
  "next_mv (subscribeToValue n k m w) = next_mv w"
  "next_sub (subscribeToValue n k m w) = Suc (Suc (next_sub w))"
  by (simp_all add: subscribeToValue_def MotionValue_onChange_def MotionValue_onRenderRequest_def
      upd_node_def upd_mv_def)

lemma nodes_call_unsubscribe: "nodes (call_unsubscribe u w) = nodes w"
  by (cases u) (simp add: unsubscribeOnChange_def unsubscribeOnRender_def upd_mv_def)

lemma mvs_call_unsubscribe:
  "mvs (call_unsubscribe (Unsubscribe m c r) w) =
     (mvs w)(m := (mvs w m)\<lparr>
        updateSubscribers := filter (\<lambda>p. fst p \<noteq> c) (updateSubscribers (mvs w m)),
        renderSubscribers := filter (\<lambda>p. fst p \<noteq> r) (renderSubscribers (mvs w m))\<rparr>)"
  by (simp add: unsubscribeOnChange_def unsubscribeOnRender_def upd_mv_def)

lemma rest_call_unsubscribe:
  "updateQueue (call_unsubscribe u w) = updateQueue w"
  "renderQueue (call_unsubscribe u w) = renderQueue w"
  "trace (call_unsubscribe u w) = trace w"
  "refCells (call_unsubscribe u w) = refCells w"
  "next_node (call_unsubscribe u w) = next_node w"
  "next_mv (call_unsubscribe u w) = next_mv w"
  "next_sub (call_unsubscribe u w) = next_sub w"
  by (cases u; simp add: unsubscribeOnChange_def unsubscribeOnRender_def upd_mv_def)+

lemma nodes_removeValue:
  "nodes (removeValue n k w) =
     (nodes w)(n := (nodes w n)\<lparr>values_map := Map_delete k (values_map (nodes w n)),
        latest := (latest (nodes w n))(k := None),
        valueSubscriptions := (valueSubscriptions (nodes w n))(k := None)\<rparr>)"
  by (simp add: removeValue_def upd_node_def nodes_call_unsubscribe Let_def object_delete_def
      split: option.splits)

lemma mvs_removeValue:
  "mvs (removeValue n k w) =
     (case valueSubscriptions (nodes w n) k of
        None \<Rightarrow> mvs w
      | Some u \<Rightarrow> mvs (call_unsubscribe u w))"
  by (simp add: removeValue_def upd_node_def Let_def split: option.splits)

lemma rest_removeValue:
  "updateQueue (removeValue n k w) = updateQueue w"
  "renderQueue (removeValue n k w) = renderQueue w"
  "trace (removeValue n k w) = trace w"
  "refCells (removeValue n k w) = refCells w"
  "next_node (removeValue n k w) = next_node w"
  "next_mv (removeValue n k w) = next_mv w"
  "next_sub (removeValue n k w) = next_sub w"
  by (simp_all add: removeValue_def upd_node_def rest_call_unsubscribe Let_def split: option.splits)

subsection \<open>The walk of \<open>unmount\<close>\<close>

lemma forEach_remove_other:
  "n' \<noteq> n \<Longrightarrow> nodes (forEach_entries n (\<lambda>m k. removeValue n k) ps w) n' = nodes w n'"
  by (induction ps arbitrary: w) (simp_all add: nodes_removeValue)

lemma forEach_remove_kept:
  "(nodes (forEach_entries n (\<lambda>m k. removeValue n k) ps w) n')
      \<lparr>values_map := a, latest := b, valueSubscriptions := c\<rparr> =
   (nodes w n')\<lparr>values_map := a, latest := b, valueSubscriptions := c\<rparr>"
  by (induction ps arbitrary: w) (simp_all add: nodes_removeValue)

lemma forEach_remove_rest:
  "updateQueue (forEach_entries n (\<lambda>m k. removeValue n k) ps w) = updateQueue w"
  "renderQueue (forEach_entries n (\<lambda>m k. removeValue n k) ps w) = renderQueue w"
  "trace (forEach_entries n (\<lambda>m k. removeValue n k) ps w) = trace w"
  "refCells (forEach_entries n (\<lambda>m k. removeValue n k) ps w) = refCells w"
  "next_node (forEach_entries n (\<lambda>m k. removeValue n k) ps w) = next_node w"
  "next_mv (forEach_entries n (\<lambda>m k. removeValue n k) ps w) = next_mv w"
  "next_sub (forEach_entries n (\<lambda>m k. removeValue n k) ps w) = next_sub w"
  by (induction ps arbitrary: w; simp add: rest_removeValue)+

lemma forEach_remove_values:
  "set (values_map (nodes w n)) \<subseteq> set ps \<Longrightarrow>
   values_map (nodes (forEach_entries n (\<lambda>m k. removeValue n k) ps w) n) = []"
proof (induction ps arbitrary: w)
  case Nil
  then show ?case by simp
next
  case (Cons p ps)
  show ?case
  proof (cases "p \<in> set (values_map (nodes w n))")
    case True
    have "set (values_map (nodes (removeValue n (fst p) w) n)) \<subseteq> set ps"
      using Cons.prems by (auto simp: nodes_removeValue Map_delete_def)
    from Cons.IH [OF this] True show ?thesis by simp
  next
    case False
    with Cons.prems have "set (values_map (nodes w n)) \<subseteq> set ps" by auto
    from Cons.IH [OF this] False show ?thesis by simp
  qed
qed

lemma mvs_removeValue_subset:
  "set (updateSubscribers (mvs (removeValue n k w) m)) \<subseteq> set (updateSubscribers (mvs w m))"
proof (cases "valueSubscriptions (nodes w n) k")
  case None
  then show ?thesis by (simp add: mvs_removeValue)
next
  case (Some u)
  then show ?thesis
    by (cases u) (auto simp: mvs_removeValue mvs_call_unsubscribe simp del: call_unsubscribe.simps)
qed

lemma reading_removeValue: "reading (mvs (removeValue n k w) m) = reading (mvs w m)"
proof (cases "valueSubscriptions (nodes w n) k")
  case None
  then show ?thesis by (simp add: mvs_removeValue)
next
  case (Some u)
  then show ?thesis
    by (cases u) (auto simp: mvs_removeValue mvs_call_unsubscribe simp del: call_unsubscribe.simps)
qed

lemma forEach_remove_subscribers:
  "set (updateSubscribers (mvs (forEach_entries n (\<lambda>m k. removeValue n k) ps w) m))
     \<subseteq> set (updateSubscribers (mvs w m))"
proof (induction ps arbitrary: w)
  case Nil
  then show ?case by simp
next
  case (Cons p ps)
  show ?case
    using Cons.IH [of "removeValue n (fst p) w"] Cons.IH [of w]
      mvs_removeValue_subset [of n "fst p" w m]
    by auto
qed

lemma nodes_unmount_kept:
  "(nodes (unmount n w) n')\<lparr>values_map := a, latest := b, valueSubscriptions := c\<rparr> =
   (nodes w n')\<lparr>values_map := a, latest := b, valueSubscriptions := c\<rparr>"
  by (simp add: unmount_def cancelSync_render_def cancelSync_update_def forEachValue_def
      forEach_remove_kept)

lemma nodes_unmount_other: "n' \<noteq> n \<Longrightarrow> nodes (unmount n w) n' = nodes w n'"
  by (simp add: unmount_def cancelSync_render_def cancelSync_update_def forEachValue_def
      forEach_remove_other)

lemma values_unmount: "values_map (nodes (unmount n w) n) = []"
  by (simp add: unmount_def cancelSync_render_def cancelSync_update_def forEachValue_def
      forEach_remove_values)

lemma queues_unmount:
  "updateQueue (unmount n w) = removeAll (Update n) (updateQueue w)"
  "renderQueue (unmount n w) = removeAll (RenderMethod n) (renderQueue w)"
  by (simp_all add: unmount_def cancelSync_render_def cancelSync_update_def forEachValue_def
      forEach_remove_rest)

lemma rest_unmount:
  "trace (unmount n w) = trace w"
  "refCells (unmount n w) = refCells w"
  "next_node (unmount n w) = next_node w"
  "next_mv (unmount n w) = next_mv w"
  "next_sub (unmount n w) = next_sub w"
  by (simp_all add: unmount_def cancelSync_render_def cancelSync_update_def forEachValue_def
      forEach_remove_rest)

lemma unmount_no_values:
  "values_map (nodes w n) = [] \<Longrightarrow> nodes (unmount n w) = nodes w"
  by (simp add: unmount_def cancelSync_render_def cancelSync_update_def forEachValue_def)

text \<open>
  The exact effect of the walk: for every key bound in the values map the snapshot entry
  and the held closure are gone, the entries under other keys stay, and every motion value
  loses the subscriptions that the held closures cancel and no other.
\<close>

lemma forEach_remove_latest:
  "latest (nodes (forEach_entries n (\<lambda>m k. removeValue n k) ps w) n) k =
     (if \<exists>p \<in> set ps. p \<in> set (values_map (nodes w n)) \<and> fst p = k then None
      else latest (nodes w n) k)"
proof (induction ps arbitrary: w)
  case Nil
  then show ?case by simp
next
  case (Cons p ps)
  show ?case
  proof (cases "p \<in> set (values_map (nodes w n))")
    case True
    then show ?thesis
      using Cons.IH [of "removeValue n (fst p) w"]
      by (auto simp: nodes_removeValue Map_delete_def)
  next
    case False
    then show ?thesis using Cons.IH [of w] by auto
  qed
qed

lemma forEach_remove_closures:
  "valueSubscriptions (nodes (forEach_entries n (\<lambda>m k. removeValue n k) ps w) n) k =
     (if \<exists>p \<in> set ps. p \<in> set (values_map (nodes w n)) \<and> fst p = k then None
      else valueSubscriptions (nodes w n) k)"
proof (induction ps arbitrary: w)
  case Nil
  then show ?case by simp
next
  case (Cons p ps)
  show ?case
  proof (cases "p \<in> set (values_map (nodes w n))")
    case True
    then show ?thesis
      using Cons.IH [of "removeValue n (fst p) w"]
      by (auto simp: nodes_removeValue Map_delete_def)
  next
    case False
    then show ?thesis using Cons.IH [of w] by auto
  qed
qed

lemma Map_has_iff: "Map_has k ps = (\<exists>p \<in> set ps. fst p = k)"
  by (auto simp: Map_has_def map_of_eq_None_iff image_iff)

lemma updateSubscribers_removeValue:
  "updateSubscribers (mvs (removeValue n k w) m) =
     filter (\<lambda>q. \<not> (case valueSubscriptions (nodes w n) k of None \<Rightarrow> False
                      | Some u \<Rightarrow> cancels_change u m (fst q)))
       (updateSubscribers (mvs w m))"
proof (cases "valueSubscriptions (nodes w n) k")
  case None
  then show ?thesis by (simp add: mvs_removeValue)
next
  case (Some u)
  then show ?thesis
    by (cases u) (auto simp: mvs_removeValue unsubscribeOnChange_def unsubscribeOnRender_def upd_mv_def
        intro: filter_cong)
qed

lemma renderSubscribers_removeValue:
  "renderSubscribers (mvs (removeValue n k w) m) =
     filter (\<lambda>q. \<not> (case valueSubscriptions (nodes w n) k of None \<Rightarrow> False
                      | Some u \<Rightarrow> cancels_render u m (fst q)))
       (renderSubscribers (mvs w m))"
proof (cases "valueSubscriptions (nodes w n) k")
  case None
  then show ?thesis by (simp add: mvs_removeValue)
next
  case (Some u)
  then show ?thesis
    by (cases u) (auto simp: mvs_removeValue unsubscribeOnChange_def unsubscribeOnRender_def upd_mv_def
        intro: filter_cong)
qed

lemma forEach_remove_updateSubscribers:
  "updateSubscribers (mvs (forEach_entries n (\<lambda>m k. removeValue n k) ps w) m) =
     filter (\<lambda>q. \<not> (\<exists>p \<in> set ps. p \<in> set (values_map (nodes w n)) \<and>
                      (case valueSubscriptions (nodes w n) (fst p) of None \<Rightarrow> False
                       | Some u \<Rightarrow> cancels_change u m (fst q))))
       (updateSubscribers (mvs w m))"
proof (induction ps arbitrary: w)
  case Nil
  then show ?case by simp
next
  case (Cons p ps)
  show ?case
  proof (cases "p \<in> set (values_map (nodes w n))")
    case True
    show ?thesis
      using True
      apply (simp add: Cons.IH [of "removeValue n (fst p) w"] updateSubscribers_removeValue)
      apply (rule filter_cong [OF refl])
      apply (auto simp: nodes_removeValue Map_delete_def split: option.splits)
      done
  next
    case False
    then show ?thesis using Cons.IH [of w] by (auto intro: filter_cong)
  qed
qed

lemma forEach_remove_renderSubscribers:
  "renderSubscribers (mvs (forEach_entries n (\<lambda>m k. removeValue n k) ps w) m) =
     filter (\<lambda>q. \<not> (\<exists>p \<in> set ps. p \<in> set (values_map (nodes w n)) \<and>
                      (case valueSubscriptions (nodes w n) (fst p) of None \<Rightarrow> False
                       | Some u \<Rightarrow> cancels_render u m (fst q))))
       (renderSubscribers (mvs w m))"
proof (induction ps arbitrary: w)
  case Nil
  then show ?case by simp
next
  case (Cons p ps)
  show ?case
  proof (cases "p \<in> set (values_map (nodes w n))")
    case True
    show ?thesis
      using True
      apply (simp add: Cons.IH [of "removeValue n (fst p) w"] renderSubscribers_removeValue)
      apply (rule filter_cong [OF refl])
      apply (auto simp: nodes_removeValue Map_delete_def split: option.splits)
      done
  next
    case False
    then show ?thesis using Cons.IH [of w] by (auto intro: filter_cong)
  qed
qed

lemma forEach_remove_reading:
  "reading (mvs (forEach_entries n (\<lambda>m k. removeValue n k) ps w) m) = reading (mvs w m)"
  by (induction ps arbitrary: w) (simp_all add: reading_removeValue)

lemma held_closures_iff:
  "(\<exists>u \<in> set (held_closures w n). P u) =
   (\<exists>p \<in> set (values_map (nodes w n)).
      case valueSubscriptions (nodes w n) (fst p) of None \<Rightarrow> False | Some u \<Rightarrow> P u)"
proof
  assume "\<exists>u \<in> set (held_closures w n). P u"
  then obtain u p where "p \<in> set (values_map (nodes w n))"
    and "u \<in> set (case valueSubscriptions (nodes w n) (fst p) of None \<Rightarrow> [] | Some u \<Rightarrow> [u])"
    and "P u" by (auto simp: held_closures_def)
  then show "\<exists>p \<in> set (values_map (nodes w n)).
      case valueSubscriptions (nodes w n) (fst p) of None \<Rightarrow> False | Some u \<Rightarrow> P u"
    by (cases "valueSubscriptions (nodes w n) (fst p)") (auto intro!: bexI [of _ p])
next
  assume "\<exists>p \<in> set (values_map (nodes w n)).
      case valueSubscriptions (nodes w n) (fst p) of None \<Rightarrow> False | Some u \<Rightarrow> P u"
  then obtain p u where p: "p \<in> set (values_map (nodes w n))"
    and u: "valueSubscriptions (nodes w n) (fst p) = Some u" and "P u"
    by (auto split: option.splits)
  then have "u \<in> set (held_closures w n)"
    unfolding held_closures_def by (auto intro!: bexI [of _ p])
  with \<open>P u\<close> show "\<exists>u \<in> set (held_closures w n). P u" by blast
qed

lemma latest_unmount:
  "latest (nodes (unmount n w) n) k = (if hasValue n k w then None else latest (nodes w n) k)"
  by (simp add: unmount_def cancelSync_render_def cancelSync_update_def forEachValue_def
      forEach_remove_latest hasValue_def Map_has_iff)

lemma closures_unmount:
  "valueSubscriptions (nodes (unmount n w) n) k =
     (if hasValue n k w then None else valueSubscriptions (nodes w n) k)"
  by (simp add: unmount_def cancelSync_render_def cancelSync_update_def forEachValue_def
      forEach_remove_closures hasValue_def Map_has_iff)

lemma updateSubscribers_unmount:
  "updateSubscribers (mvs (unmount n w) m) =
     filter (\<lambda>q. \<not> (\<exists>u \<in> set (held_closures w n). cancels_change u m (fst q)))
       (updateSubscribers (mvs w m))"
  by (simp add: unmount_def cancelSync_render_def cancelSync_update_def forEachValue_def
      forEach_remove_updateSubscribers held_closures_iff)

lemma renderSubscribers_unmount:
  "renderSubscribers (mvs (unmount n w) m) =
     filter (\<lambda>q. \<not> (\<exists>u \<in> set (held_closures w n). cancels_render u m (fst q)))
       (renderSubscribers (mvs w m))"
  by (simp add: unmount_def cancelSync_render_def cancelSync_update_def forEachValue_def
      forEach_remove_renderSubscribers held_closures_iff)

lemma reading_unmount: "reading (mvs (unmount n w) m) = reading (mvs w m)"
  by (simp add: unmount_def cancelSync_render_def cancelSync_update_def forEachValue_def
      forEach_remove_reading)

lemma node_unmount:
  "nodes (unmount n w) n =
     (nodes w n)\<lparr>values_map := [],
        latest := (\<lambda>k. if hasValue n k w then None else latest (nodes w n) k),
        valueSubscriptions := (\<lambda>k. if hasValue n k w then None else valueSubscriptions (nodes w n) k)\<rparr>"
proof -
  let ?L = "\<lambda>k. if hasValue n k w then None else latest (nodes w n) k"
  let ?S = "\<lambda>k. if hasValue n k w then None else valueSubscriptions (nodes w n) k"
  have "nodes (unmount n w) n =
      (nodes (unmount n w) n)\<lparr>values_map := values_map (nodes (unmount n w) n),
         latest := latest (nodes (unmount n w) n),
         valueSubscriptions := valueSubscriptions (nodes (unmount n w) n)\<rparr>"
    by simp
  also have "latest (nodes (unmount n w) n) = ?L" by (rule ext) (rule latest_unmount)
  also have "valueSubscriptions (nodes (unmount n w) n) = ?S" by (rule ext) (rule closures_unmount)
  also have "values_map (nodes (unmount n w) n) = []" by (rule values_unmount)
  finally show ?thesis by (simp only: nodes_unmount_kept)
qed

lemma nodes_unmount:
  "nodes (unmount n w) =
     (nodes w)(n := (nodes w n)\<lparr>values_map := [],
        latest := (\<lambda>k. if hasValue n k w then None else latest (nodes w n) k),
        valueSubscriptions := (\<lambda>k. if hasValue n k w then None else valueSubscriptions (nodes w n) k)\<rparr>)"
  by (rule ext) (simp add: node_unmount nodes_unmount_other)

subsection \<open>The walk of \<open>mount\<close>\<close>

lemma forEach_subscribe_other:
  "n' \<noteq> n \<Longrightarrow> nodes (forEach_entries n (\<lambda>m k. subscribeToValue n k m) ps w) n' = nodes w n'"
  by (induction ps arbitrary: w) (simp_all add: nodes_subscribeToValue)

lemma forEach_subscribe_kept:
  "(nodes (forEach_entries n (\<lambda>m k. subscribeToValue n k m) ps w) n')\<lparr>valueSubscriptions := c\<rparr> =
   (nodes w n')\<lparr>valueSubscriptions := c\<rparr>"
  by (induction ps arbitrary: w) (simp_all add: nodes_subscribeToValue)

lemma forEach_subscribe_rest:
  "updateQueue (forEach_entries n (\<lambda>m k. subscribeToValue n k m) ps w) = updateQueue w"
  "renderQueue (forEach_entries n (\<lambda>m k. subscribeToValue n k m) ps w) = renderQueue w"
  "trace (forEach_entries n (\<lambda>m k. subscribeToValue n k m) ps w) = trace w"
  "refCells (forEach_entries n (\<lambda>m k. subscribeToValue n k m) ps w) = refCells w"
  "next_node (forEach_entries n (\<lambda>m k. subscribeToValue n k m) ps w) = next_node w"
  "next_mv (forEach_entries n (\<lambda>m k. subscribeToValue n k m) ps w) = next_mv w"
  by (induction ps arbitrary: w; simp add: rest_subscribeToValue)+

lemma forEach_subscribe_reading:
  "reading (mvs (forEach_entries n (\<lambda>m k. subscribeToValue n k m) ps w) m) = reading (mvs w m)"
  by (induction ps arbitrary: w) (simp_all add: mvs_subscribeToValue)



lemma values_subscribeToValue:
  "values_map (nodes (subscribeToValue n k m w) n') = values_map (nodes w n')"
  by (simp add: nodes_subscribeToValue)



lemma mount_falsy: "\<not> truthy el \<Longrightarrow> mount n el w = Inl ConfigurationError"
  by (simp add: mount_def invariant_def)

lemma mount_truthy:
  "truthy el \<Longrightarrow>
   mount n el w =
     Inr (forEach_entries n (\<lambda>m k. subscribeToValue n k m) (values_map (nodes w n))
            (upd_node n (\<lambda>nd. nd\<lparr>element := el, current := el\<rparr>) w))"
  by (simp add: mount_def invariant_def forEachValue_def upd_node_def)

lemma mount_returns: "mount n el w = Inr w' \<Longrightarrow> truthy el"
  by (cases "truthy el") (simp_all add: mount_falsy)

subsection \<open>Notifications\<close>

lemma object_set_twice: "object_set k x (object_set k x obj) = object_set k x obj"
  by (auto simp: object_set_def)

lemma nodes_onChange:
  "nodes (onChange n k x w) = (nodes w)(n := (nodes w n)\<lparr>latest := object_set k x (latest (nodes w n))\<rparr>)"
  by (simp add: onChange_def setSingleStaticValue_def upd_node_def sync_update_def Let_def
      object_set_twice)

lemma mvs_call_subscriber: "mvs (call_subscriber cb x w) = mvs w"
  by (cases cb)
    (simp_all add: onChange_def setSingleStaticValue_def upd_node_def sync_update_def Let_def
      scheduleRender_def sync_render_def)

lemma nodes_call_subscriber_kept:
  "(nodes (call_subscriber cb x w) n')\<lparr>latest := b\<rparr> = (nodes w n')\<lparr>latest := b\<rparr>"
  by (cases cb) (simp_all add: nodes_onChange scheduleRender_def sync_render_def)

lemma rest_call_subscriber:
  "trace (call_subscriber cb x w) = trace w"
  "refCells (call_subscriber cb x w) = refCells w"
  "next_node (call_subscriber cb x w) = next_node w"
  "next_mv (call_subscriber cb x w) = next_mv w"
  "next_sub (call_subscriber cb x w) = next_sub w"
  by (cases cb; simp add: onChange_def setSingleStaticValue_def upd_node_def sync_update_def Let_def
      scheduleRender_def sync_render_def)+

lemma latest_call_subscriber:
  "latest (nodes (call_subscriber cb x w) n) k =
     (if cb = OnChange n k \<and> (k \<noteq> ''__proto__'' \<or> latest (nodes w n) k \<noteq> None) then Some x
      else latest (nodes w n) k)"
  by (cases cb) (auto simp: nodes_onChange scheduleRender_def sync_render_def object_set_def)

lemma updateQueue_call_subscriber:
  "set (updateQueue (call_subscriber cb x w)) =
     (case cb of
        OnChange n k \<Rightarrow>
          (if onUpdate (config (nodes w n)) \<noteq> None then insert (Update n) (set (updateQueue w))
           else set (updateQueue w))
      | ScheduleRender n \<Rightarrow> set (updateQueue w))"
  by (cases cb)
    (auto simp: onChange_def setSingleStaticValue_def upd_node_def sync_update_def Let_def
      scheduleRender_def sync_render_def)

lemma renderQueue_call_subscriber:
  "set (renderQueue (call_subscriber cb x w)) =
     (case cb of
        OnChange n k \<Rightarrow> set (renderQueue w)
      | ScheduleRender n \<Rightarrow> insert (TriggerRender n) (set (renderQueue w)))"
  by (cases cb)
    (auto simp: onChange_def setSingleStaticValue_def upd_node_def sync_update_def Let_def
      scheduleRender_def sync_render_def)

lemma mvs_notify: "mvs (fold (\<lambda>s. call_subscriber (snd s) x) subs w) = mvs w"
  by (induction subs arbitrary: w) (simp_all add: mvs_call_subscriber)

lemma nodes_notify_kept:
  "(nodes (fold (\<lambda>s. call_subscriber (snd s) x) subs w) n')\<lparr>latest := b\<rparr> = (nodes w n')\<lparr>latest := b\<rparr>"
  by (induction subs arbitrary: w) (simp_all add: nodes_call_subscriber_kept)

lemma rest_notify:
  "trace (fold (\<lambda>s. call_subscriber (snd s) x) subs w) = trace w"
  "refCells (fold (\<lambda>s. call_subscriber (snd s) x) subs w) = refCells w"
  "next_node (fold (\<lambda>s. call_subscriber (snd s) x) subs w) = next_node w"
  "next_mv (fold (\<lambda>s. call_subscriber (snd s) x) subs w) = next_mv w"
  "next_sub (fold (\<lambda>s. call_subscriber (snd s) x) subs w) = next_sub w"
  by (induction subs arbitrary: w; simp add: rest_call_subscriber)+

lemma latest_notify:
  "latest (nodes (fold (\<lambda>s. call_subscriber (snd s) x) subs w) n) k =
     (if OnChange n k \<in> snd ` set subs \<and> (k \<noteq> ''__proto__'' \<or> latest (nodes w n) k \<noteq> None)
      then Some x else latest (nodes w n) k)"
  by (induction subs arbitrary: w) (auto simp: latest_call_subscriber simp del: call_subscriber.simps)

lemma config_notify:
  "config (nodes (fold (\<lambda>s. call_subscriber (snd s) x) subs w) n) = config (nodes w n)"
  using arg_cong [OF nodes_notify_kept [where b = "Map.empty"], of config] by simp

lemma updateQueue_notify_mono:
  "set (updateQueue w) \<subseteq> set (updateQueue (fold (\<lambda>s. call_subscriber (snd s) x) subs w))"
proof (induction subs arbitrary: w)
  case Nil
  then show ?case by simp
next
  case (Cons s subs)
  have "set (updateQueue w) \<subseteq> set (updateQueue (call_subscriber (snd s) x w))"
    by (auto simp: updateQueue_call_subscriber split: subscriber.splits)
  with Cons.IH [of "call_subscriber (snd s) x w"] show ?case by auto
qed

lemma updateQueue_notify:
  "OnChange n k \<in> snd ` set subs \<Longrightarrow> onUpdate (config (nodes w n)) \<noteq> None \<Longrightarrow>
   Update n \<in> set (updateQueue (fold (\<lambda>s. call_subscriber (snd s) x) subs w))"
proof (induction subs arbitrary: w)
  case Nil
  then show ?case by simp
next
  case (Cons s subs)
  let ?w' = "call_subscriber (snd s) x w"
  have cfg: "config (nodes ?w' n) = config (nodes w n)"
    using arg_cong [OF nodes_call_subscriber_kept [where b = "Map.empty"], of config] by simp
  show ?case
  proof (cases "snd s = OnChange n k")
    case True
    then have "Update n \<in> set (updateQueue ?w')"
      using Cons.prems(2) by (simp add: updateQueue_call_subscriber del: call_subscriber.simps)
    then show ?thesis using updateQueue_notify_mono [of ?w' x subs] by auto
  next
    case False
    with Cons.prems(1) have "OnChange n k \<in> snd ` set subs" by auto
    from Cons.IH [OF this, of ?w'] Cons.prems(2) cfg show ?thesis by simp
  qed
qed

lemma latest_change:
  "latest (nodes (MotionValue_change m x w) n) k =
     (if listens w n k m \<and> (k \<noteq> ''__proto__'' \<or> latest (nodes w n) k \<noteq> None) then Some x
      else latest (nodes w n) k)"
proof -
  have n: "nodes (upd_mv m (\<lambda>v. v\<lparr>reading := x\<rparr>) w) = nodes w" by (simp add: upd_mv_def)
  show ?thesis
    unfolding MotionValue_change_def latest_notify n listens_def ..
qed

lemma nodes_change_kept:
  "(nodes (MotionValue_change m x w) n')\<lparr>latest := b\<rparr> = (nodes w n')\<lparr>latest := b\<rparr>"
  by (simp add: MotionValue_change_def nodes_notify_kept upd_mv_def)

lemma mvs_change: "mvs (MotionValue_change m x w) = (mvs w)(m := (mvs w m)\<lparr>reading := x\<rparr>)"
  by (simp add: MotionValue_change_def mvs_notify upd_mv_def)

lemma rest_change:
  "trace (MotionValue_change m x w) = trace w"
  "refCells (MotionValue_change m x w) = refCells w"
  "next_node (MotionValue_change m x w) = next_node w"
  "next_mv (MotionValue_change m x w) = next_mv w"
  "next_sub (MotionValue_change m x w) = next_sub w"
  by (simp_all add: MotionValue_change_def rest_notify upd_mv_def)

lemma updateQueue_change:
  "listens w n k m \<Longrightarrow> onUpdate (config (nodes w n)) \<noteq> None \<Longrightarrow>
   Update n \<in> set (updateQueue (MotionValue_change m x w))"
  by (simp add: MotionValue_change_def listens_def updateQueue_notify upd_mv_def)

lemma nodes_requestRender_kept:
  "(nodes (MotionValue_requestRender m w) n')\<lparr>latest := b\<rparr> = (nodes w n')\<lparr>latest := b\<rparr>"
  by (simp add: MotionValue_requestRender_def nodes_notify_kept)

lemma rest_requestRender:
  "next_node (MotionValue_requestRender m w) = next_node w"
  "mvs (MotionValue_requestRender m w) = mvs w"
  by (simp_all add: MotionValue_requestRender_def rest_notify mvs_notify)

subsection \<open>The tick\<close>

lemma run_process_nodes: "run_process p w = Inr w' \<Longrightarrow> nodes w' = nodes w \<and> mvs w' = mvs w \<and> next_node w' = next_node w"
  by (cases p) (auto simp: update_def triggerRender_def render_def split: option.splits)

lemma run_all_nodes: "run_all ps w = Inr w' \<Longrightarrow> nodes w' = nodes w \<and> mvs w' = mvs w \<and> next_node w' = next_node w"
proof (induction ps arbitrary: w)
  case Nil
  then show ?case by simp
next
  case (Cons p ps)
  then obtain w1 where 1: "run_process p w = Inr w1" and 2: "run_all ps w1 = Inr w'"
    by (auto split: sum.splits)
  from Cons.IH [OF 2] run_process_nodes [OF 1] show ?case by simp
qed

lemma tick_nodes: "tick w = Inr w' \<Longrightarrow> nodes w' = nodes w \<and> mvs w' = mvs w \<and> next_node w' = next_node w"
  using run_all_nodes [of "updateQueue w @ renderQueue w" "w\<lparr>updateQueue := [], renderQueue := []\<rparr>" w']
  by (simp add: tick_def)

lemma run_process_error: "run_process p w = Inl err \<Longrightarrow> err = TypeError"
  by (cases p) (auto simp: update_def split: option.splits)

text \<open>A queued update of a node without \<open>onUpdate\<close> makes the run throw.\<close>

lemma run_all_TypeError:
  "Update n \<in> set ps \<Longrightarrow> onUpdate (config (nodes w n)) = None \<Longrightarrow> run_all ps w = Inl TypeError"
proof (induction ps arbitrary: w)
  case Nil
  then show ?case by simp
next
  case (Cons p ps)
  show ?case
  proof (cases "run_process p w")
    case (Inl err)
    then show ?thesis using run_process_error [OF Inl] by simp
  next
    case (Inr w1)
    then have "p \<noteq> Update n" using Cons.prems(2) by (auto simp: update_def)
    with Cons.prems(1) have "Update n \<in> set ps" by simp
    moreover have "onUpdate (config (nodes w1 n)) = None"
      using run_process_nodes [OF Inr] Cons.prems(2) by simp
    ultimately show ?thesis using Cons.IH Inr by simp
  qed
qed

text \<open>When every queued update has its \<open>onUpdate\<close>, the run returns.\<close>

lemma run_all_ok:
  "(\<And>n. Update n \<in> set ps \<Longrightarrow> onUpdate (config (nodes w n)) \<noteq> None) \<Longrightarrow> \<exists>w'. run_all ps w = Inr w'"
proof (induction ps arbitrary: w)
  case Nil
  then show ?case by simp
next
  case (Cons p ps)
  have "\<exists>w1. run_process p w = Inr w1"
    using Cons.prems [of "case p of Update n \<Rightarrow> n | _ \<Rightarrow> 0"]
    by (cases p) (auto simp: update_def split: option.splits)
  then obtain w1 where 1: "run_process p w = Inr w1" by blast
  have "\<And>n. Update n \<in> set ps \<Longrightarrow> onUpdate (config (nodes w1 n)) \<noteq> None"
    using Cons.prems run_process_nodes [OF 1] by simp
  from Cons.IH [OF this] 1 show ?case by simp
qed

subsection \<open>The registry\<close>

lemma Map_delete_absent: "\<not> Map_has k ps \<Longrightarrow> Map_delete k ps = ps"
  by (induction ps) (auto simp: Map_has_def Map_delete_def split: if_splits)

lemma Map_has_delete: "\<not> Map_has k (Map_delete k ps)"
  by (induction ps) (auto simp: Map_has_def Map_delete_def)

lemma Map_set_absent: "\<not> Map_has k ps \<Longrightarrow> Map_set k v ps = ps @ [(k, v)]"
  by (induction ps) (auto simp: Map_has_def split: if_splits)

lemma Map_get_set: "Map_get k (Map_set k v ps) = Some v"
  by (induction ps) (auto simp: Map_get_def)

lemma Map_has_set: "Map_has k (Map_set k v ps)"
  by (induction ps) (auto simp: Map_has_def)

lemma Map_set_mem: "(k, v) \<in> set (Map_set k v ps)"
  by (induction ps) auto

lemma Map_has_get: "Map_has k ps = (Map_get k ps \<noteq> None)"
  by (simp add: Map_has_def Map_get_def)

lemma Map_get_mem: "Map_get k ps = Some v \<Longrightarrow> (k, v) \<in> set ps"
  by (simp add: Map_get_def map_of_SomeD)

lemmas addValue_unfold =
  addValue_def Let_def hasValue_def MotionValue_get_def upd_node_def object_set_def
  nodes_removeValue nodes_subscribeToValue mvs_subscribeToValue rest_removeValue
  rest_subscribeToValue reading_removeValue

lemma nodes_addValue_other: "n' \<noteq> n \<Longrightarrow> nodes (addValue n k m w) n' = nodes w n'"
  by (simp add: addValue_unfold)

lemma nodes_addValue_kept:
  "(nodes (addValue n k m w) n')\<lparr>values_map := a, latest := b, valueSubscriptions := c\<rparr> =
   (nodes w n')\<lparr>values_map := a, latest := b, valueSubscriptions := c\<rparr>"
  by (simp add: addValue_unfold)




lemma values_addValue:
  "values_map (nodes (addValue n k m w) n) = Map_delete k (values_map (nodes w n)) @ [(k, m)]"
  by (simp add: addValue_unfold Map_set_absent Map_has_delete Map_delete_absent)

lemma hasValue_addValue: "hasValue n k (addValue n k m w)"
  by (simp add: hasValue_def values_addValue Map_has_def)

lemma Map_get_addValue: "Map_get k (values_map (nodes (addValue n k m w) n)) = Some m"
proof -
  have "map_of (Map_delete k (values_map (nodes w n))) k = None"
    using Map_has_delete [of k "values_map (nodes w n)"] by (simp add: Map_has_def)
  then show ?thesis by (simp add: values_addValue Map_get_def map_add_Some_iff)
qed

lemma element_addValue: "element (nodes (addValue n k m w) n') = element (nodes w n')"
  using arg_cong [OF nodes_addValue_kept [where a = "[]" and b = "Map.empty" and c = "Map.empty"], of element]
  by simp

lemma subs_addValue_mounted:
  "truthy (element (nodes w n)) \<Longrightarrow>
   valueSubscriptions (nodes (addValue n k m w) n) k =
     Some (Unsubscribe m (next_sub w) (Suc (next_sub w)))"
  by (auto simp: addValue_unfold)


lemma mvs_addValue_mounted:
  "truthy (element (nodes w n)) \<Longrightarrow>
   mvs (addValue n k m w) =
     (let w1 = (if hasValue n k w then removeValue n k w else w) in
      (mvs w1)(m := (mvs w1 m)\<lparr>
        updateSubscribers := updateSubscribers (mvs w1 m) @ [(next_sub w, OnChange n k)],
        renderSubscribers := renderSubscribers (mvs w1 m) @ [(Suc (next_sub w), ScheduleRender n)]\<rparr>))"
  by (auto simp: addValue_unfold)

lemma mvs_addValue_unmounted:
  "\<not> truthy (element (nodes w n)) \<Longrightarrow>
   mvs (addValue n k m w) = mvs (if hasValue n k w then removeValue n k w else w)"
  by (simp add: addValue_unfold)


lemma rest_addValue:
  "updateQueue (addValue n k m w) = updateQueue w"
  "renderQueue (addValue n k m w) = renderQueue w"
  "trace (addValue n k m w) = trace w"
  "refCells (addValue n k m w) = refCells w"
  "next_node (addValue n k m w) = next_node w"
  "next_mv (addValue n k m w) = next_mv w"
  by (simp_all add: addValue_unfold)


text \<open>Replacing a binding is installing the new one on the store the removal leaves.\<close>

lemma addValue_replace:
  assumes "hasValue n k w"
  shows "addValue n k m w = addValue n k m (removeValue n k w)"
proof -
  have "\<not> hasValue n k (removeValue n k w)"
    by (simp add: hasValue_def nodes_removeValue Map_has_delete)
  with assms show ?thesis by (simp add: addValue_def)
qed

subsection \<open>The remaining methods\<close>

lemma nodes_setSingleStaticValue:
  "nodes (setSingleStaticValue n k x w) =
     (nodes w)(n := (nodes w n)\<lparr>latest := object_set k x (latest (nodes w n))\<rparr>)"
  by (simp add: setSingleStaticValue_def upd_node_def)

lemma setSingleStaticValue_frame:
  "setSingleStaticValue n k x w =
     w\<lparr>nodes := (nodes w)(n := (nodes w n)\<lparr>latest := object_set k x (latest (nodes w n))\<rparr>)\<rparr>"
  by (simp add: setSingleStaticValue_def upd_node_def)

lemma stored_entries_Nil: "stored_entries obj [] = []"
  by (simp add: stored_entries_def)

lemma object_set_fold:
  "object_set (fst kv) (snd kv) obj ++
     map_of (rev (stored_entries (object_set (fst kv) (snd kv) obj) kvs)) =
   obj ++ map_of (rev (stored_entries obj (kv # kvs)))"
  by (auto simp: object_set_def stored_entries_def fun_eq_iff map_add_def split: option.splits)

lemma fold_setSingleStaticValue:
  "fold (\<lambda>kv. setSingleStaticValue n (fst kv) (snd kv)) kvs w =
     w\<lparr>nodes := (nodes w)(n := (nodes w n)\<lparr>latest :=
          latest (nodes w n) ++ map_of (rev (stored_entries (latest (nodes w n)) kvs))\<rparr>)\<rparr>"
proof (induction kvs arbitrary: w)
  case Nil
  then show ?case by (simp add: stored_entries_Nil)
next
  case (Cons kv kvs)
  let ?w1 = "setSingleStaticValue n (fst kv) (snd kv) w"
  note m = object_set_fold [of kv "latest (nodes w n)" kvs]
  have "fold (\<lambda>kv. setSingleStaticValue n (fst kv) (snd kv)) (kv # kvs) w =
        fold (\<lambda>kv. setSingleStaticValue n (fst kv) (snd kv)) kvs ?w1"
    by simp
  also have "\<dots> = ?w1\<lparr>nodes := (nodes ?w1)(n := (nodes ?w1 n)\<lparr>latest :=
      latest (nodes ?w1 n) ++ map_of (rev (stored_entries (latest (nodes ?w1 n)) kvs))\<rparr>)\<rparr>"
    by (rule Cons.IH)
  also have "\<dots> = w\<lparr>nodes := (nodes w)(n := (nodes w n)\<lparr>latest :=
      latest (nodes w n) ++ map_of (rev (stored_entries (latest (nodes w n)) (kv # kvs)))\<rparr>)\<rparr>"
    unfolding m [symmetric] by (simp add: setSingleStaticValue_frame)
  finally show ?case .
qed

lemma setStaticValues_frame:
  "setStaticValues n vs w =
     w\<lparr>nodes := (nodes w)(n := (nodes w n)\<lparr>latest :=
          (case vs of Single k x \<Rightarrow> object_set k x (latest (nodes w n))
           | Batch kvs \<Rightarrow>
               latest (nodes w n) ++ map_of (rev (stored_entries (latest (nodes w n)) kvs)))\<rparr>)\<rparr>"
  by (cases vs) (simp_all add: setStaticValues_def setSingleStaticValue_frame fold_setSingleStaticValue)

lemma nodes_setStaticValues_kept:
  "(nodes (setStaticValues n vs w) n')\<lparr>values_map := a, latest := b, valueSubscriptions := c\<rparr> =
   (nodes w n')\<lparr>values_map := a, latest := b, valueSubscriptions := c\<rparr>"
  by (subst setStaticValues_frame) simp

lemma nodes_removeValue_kept:
  "(nodes (removeValue n k w) n')\<lparr>values_map := a, latest := b, valueSubscriptions := c\<rparr> =
   (nodes w n')\<lparr>values_map := a, latest := b, valueSubscriptions := c\<rparr>"
  by (simp add: nodes_removeValue)

lemma nodes_new_MotionValue: "nodes (snd (new_MotionValue x w)) = nodes w"
  by (simp add: new_MotionValue_def)

lemma next_node_new_MotionValue: "next_node (snd (new_MotionValue x w)) = next_node w"
  by (simp add: new_MotionValue_def)

lemma nodes_getValue_kept:
  "(nodes (snd (getValue n k d w)) n')\<lparr>values_map := a, latest := b, valueSubscriptions := c\<rparr> =
   (nodes w n')\<lparr>values_map := a, latest := b, valueSubscriptions := c\<rparr>"
  by (simp add: getValue_def nodes_addValue_kept nodes_new_MotionValue split_beta Let_def
      split: option.splits)

lemma nodes_updateConfig:
  "nodes (updateConfig n c w) =
     (nodes w)(n := (nodes w n)\<lparr>config := (case c of None \<Rightarrow> \<lparr>onUpdate = None\<rparr> | Some c' \<Rightarrow> c')\<rparr>)"
  by (simp add: updateConfig_def upd_node_def)

lemma queues_updateConfig:
  "updateQueue (updateConfig n c w) = updateQueue w"
  "renderQueue (updateConfig n c w) = renderQueue w"
  by (simp_all add: updateConfig_def upd_node_def)

lemma nodes_scheduleRender: "nodes (scheduleRender n w) = nodes w"
  by (simp add: scheduleRender_def sync_render_def)

lemma nodes_mount_kept:
  "mount n el w = Inr w' \<Longrightarrow>
   (nodes w' n')\<lparr>valueSubscriptions := c, element := a, current := b\<rparr> =
   (nodes w n')\<lparr>valueSubscriptions := c, element := a, current := b\<rparr>"
proof -
  assume m: "mount n el w = Inr w'"
  then have w': "w' = forEach_entries n (\<lambda>m k. subscribeToValue n k m) (values_map (nodes w n))
            (upd_node n (\<lambda>nd. nd\<lparr>element := el, current := el\<rparr>) w)"
    using mount_returns [OF m] by (simp add: mount_truthy)
  have "(nodes w' n')\<lparr>valueSubscriptions := c\<rparr> =
        (nodes (upd_node n (\<lambda>nd. nd\<lparr>element := el, current := el\<rparr>) w) n')\<lparr>valueSubscriptions := c\<rparr>"
    unfolding w' by (rule forEach_subscribe_kept)
  from arg_cong [OF this, of "\<lambda>nd. nd\<lparr>element := a, current := b\<rparr>"]
  show ?thesis by (cases "n' = n") (simp_all add: upd_node_def)
qed

lemma nodes_mount_other:
  "mount n el w = Inr w' \<Longrightarrow> n' \<noteq> n \<Longrightarrow> nodes w' n' = nodes w n'"
  by (cases "truthy el") (auto simp: mount_falsy mount_truthy forEach_subscribe_other upd_node_def)

lemma element_mount: "mount n el w = Inr w' \<Longrightarrow> element (nodes w' n) = el"
proof -
  assume m: "mount n el w = Inr w'"
  then have w': "w' = forEach_entries n (\<lambda>m k. subscribeToValue n k m) (values_map (nodes w n))
            (upd_node n (\<lambda>nd. nd\<lparr>element := el, current := el\<rparr>) w)"
    using mount_returns [OF m] by (simp add: mount_truthy)
  have "(nodes w' n)\<lparr>valueSubscriptions := Map.empty\<rparr> =
        (nodes (upd_node n (\<lambda>nd. nd\<lparr>element := el, current := el\<rparr>) w) n)\<lparr>valueSubscriptions := Map.empty\<rparr>"
    unfolding w' by (rule forEach_subscribe_kept)
  from arg_cong [OF this, of element] show ?thesis by (simp add: upd_node_def)
qed


text \<open>\<open>ref\<close> never throws: it only mounts an element that is truthy.\<close>

lemma ref_truthy:
  "truthy el \<Longrightarrow> ref n el w = Inr w' \<Longrightarrow>
   \<exists>w1. mount n el w = Inr w1 \<and> nodes w' = nodes w1 \<and> mvs w' = mvs w1 \<and> next_node w' = next_node w1"
  by (auto simp: ref_def mount_truthy split: option.splits ext_ref.splits)

lemma ref_falsy:
  "\<not> truthy el \<Longrightarrow>
   \<exists>w'. ref n el w = Inr w' \<and> nodes w' = nodes (unmount n w) \<and> mvs w' = mvs (unmount n w)
     \<and> next_node w' = next_node (unmount n w)"
  by (auto simp: ref_def split: option.splits ext_ref.splits)

lemma ref_total: "\<exists>w'. ref n el w = Inr w'"
  by (cases "truthy el") (auto simp: ref_def mount_truthy split: option.splits ext_ref.splits)

lemma next_node_mount: "mount n el w = Inr w' \<Longrightarrow> next_node w' = next_node w"
  by (cases "truthy el") (auto simp: mount_falsy mount_truthy forEach_subscribe_rest upd_node_def)

lemma new_VisualElement_old:
  "n < next_node w \<Longrightarrow> nodes (snd (new_VisualElement p r w)) n = nodes w n"
  by (simp add: new_VisualElement_def)

subsection \<open>Fields a call leaves alone\<close>

lemma kept_bindings:
  assumes "nd'\<lparr>values_map := [], latest := Map.empty, valueSubscriptions := Map.empty\<rparr> =
           nd\<lparr>values_map := [], latest := Map.empty, valueSubscriptions := Map.empty\<rparr>"
  shows "readonly_fields nd' = readonly_fields nd \<and> element nd' = element nd \<and>
         config nd' = config nd \<and> current nd' = current nd"
  using arg_cong [OF assms, of parent] arg_cong [OF assms, of externalRef]
    arg_cong [OF assms, of depth] arg_cong [OF assms, of element]
    arg_cong [OF assms, of config] arg_cong [OF assms, of current]
  by (simp add: readonly_fields_def)

lemma kept_latest:
  assumes "nd'\<lparr>latest := Map.empty\<rparr> = nd\<lparr>latest := Map.empty\<rparr>"
  shows "readonly_fields nd' = readonly_fields nd \<and> element nd' = element nd \<and>
         config nd' = config nd \<and> current nd' = current nd \<and>
         values_map nd' = values_map nd \<and> valueSubscriptions nd' = valueSubscriptions nd"
  using arg_cong [OF assms, of parent] arg_cong [OF assms, of externalRef]
    arg_cong [OF assms, of depth] arg_cong [OF assms, of element]
    arg_cong [OF assms, of config] arg_cong [OF assms, of current]
    arg_cong [OF assms, of values_map] arg_cong [OF assms, of valueSubscriptions]
  by (simp add: readonly_fields_def)

lemma kept_mount:
  assumes "nd'\<lparr>valueSubscriptions := Map.empty, element := Undefined, current := Undefined\<rparr> =
           nd\<lparr>valueSubscriptions := Map.empty, element := Undefined, current := Undefined\<rparr>"
  shows "readonly_fields nd' = readonly_fields nd \<and> config nd' = config nd \<and>
         values_map nd' = values_map nd \<and> latest nd' = latest nd"
  using arg_cong [OF assms, of parent] arg_cong [OF assms, of externalRef]
    arg_cong [OF assms, of depth] arg_cong [OF assms, of latest]
    arg_cong [OF assms, of config] arg_cong [OF assms, of values_map]
  by (simp add: readonly_fields_def)

text \<open>
  No call changes the read-only fields of a node that exists, and only \<open>mount\<close> (or
  \<open>ref\<close> on an element) changes its \<open>element\<close>.
\<close>

lemma step_kept:
  assumes "step a w = Inr w'" and "n < next_node w"
  shows "readonly_fields (nodes w' n) = readonly_fields (nodes w n) \<and>
         (element (nodes w' n) = element (nodes w n) \<or>
          (\<exists>el. truthy el \<and> (a = DoMount n el \<or> a = DoRef n el)))"
proof (cases a)
  case (DoNew p r)
  with assms show ?thesis by (auto simp: new_VisualElement_old)
next
  case (DoNewMotionValue x)
  with assms show ?thesis by (auto simp: nodes_new_MotionValue)
next
  case (DoAddValue n' k m)
  with assms kept_bindings [OF nodes_addValue_kept, of n' k m w n] show ?thesis by auto
next
  case (DoRemoveValue n' k)
  with assms kept_bindings [OF nodes_removeValue_kept, of n' k w n] show ?thesis by auto
next
  case (DoGetValue n' k d)
  with assms kept_bindings [OF nodes_getValue_kept, of n' k d w n] show ?thesis by auto
next
  case (DoUpdateConfig n' c)
  with assms show ?thesis by (auto simp: nodes_updateConfig readonly_fields_def)
next
  case (DoSetStaticValues n' vs)
  with assms kept_bindings [OF nodes_setStaticValues_kept, of n' vs w n] show ?thesis by auto
next
  case (DoScheduleRender n')
  with assms show ?thesis by (auto simp: nodes_scheduleRender)
next
  case (DoMount n' el)
  with assms have m: "mount n' el w = Inr w'" by simp
  show ?thesis
  proof (cases "n' = n")
    case True
    with DoMount mount_returns [OF m] kept_mount [OF nodes_mount_kept [OF m], of n]
    show ?thesis by auto
  next
    case False
    with nodes_mount_other [OF m, of n] show ?thesis by auto
  qed
next
  case (DoUnmount n')
  with assms kept_bindings [OF nodes_unmount_kept, of n' w n] show ?thesis by auto
next
  case (DoRef n' el)
  show ?thesis
  proof (cases "truthy el")
    case False
    with DoRef assms ref_falsy [of el n' w] kept_bindings [OF nodes_unmount_kept, of n' w n]
    show ?thesis by auto
  next
    case True
    from DoRef assms have r: "ref n' el w = Inr w'" by simp
    from ref_truthy [OF True r] obtain w1 where m: "mount n' el w = Inr w1"
      and eq: "nodes w' = nodes w1" by blast
    show ?thesis
    proof (cases "n' = n")
      case True
      with \<open>truthy el\<close> DoRef eq kept_mount [OF nodes_mount_kept [OF m], of n] show ?thesis by auto
    next
      case False
      with eq nodes_mount_other [OF m, of n] show ?thesis by auto
    qed
  qed
next
  case (DoChange m x)
  with assms kept_latest [OF nodes_change_kept, of m x w n] show ?thesis by auto
next
  case (DoRequestRender m)
  with assms kept_latest [OF nodes_requestRender_kept, of m w n] show ?thesis by auto
next
  case DoTick
  with assms tick_nodes [of w w'] show ?thesis by auto
qed

lemma next_node_ref: "ref n el w = Inr w' \<Longrightarrow> next_node w' = next_node w"
proof (cases "truthy el")
  case False
  assume "ref n el w = Inr w'"
  with ref_falsy [OF False, of n w] show ?thesis by (auto simp: rest_unmount)
next
  case True
  assume "ref n el w = Inr w'"
  with ref_truthy [OF True, of n w w'] next_node_mount [of n el w] show ?thesis by auto
qed

lemma step_next_node: "step a w = Inr w' \<Longrightarrow> next_node w \<le> next_node w'"
proof (cases a)
  case (DoRef n el)
  assume "step a w = Inr w'"
  with DoRef next_node_ref [of n el w w'] show ?thesis by simp
next
  case DoTick
  assume "step a w = Inr w'"
  with DoTick tick_nodes [of w w'] show ?thesis by simp
qed (auto simp: new_VisualElement_def new_MotionValue_def rest_addValue rest_removeValue
      getValue_def split_beta Let_def updateConfig_def upd_node_def setStaticValues_frame
      scheduleRender_def sync_render_def next_node_mount rest_unmount rest_change
      rest_requestRender split: option.splits)

text \<open>The same along any sequence of calls that returns.\<close>

lemma run_kept:
  "run as w = Inr w' \<Longrightarrow> n < next_node w \<Longrightarrow>
   readonly_fields (nodes w' n) = readonly_fields (nodes w n) \<and> n < next_node w'"
proof (induction as arbitrary: w)
  case Nil
  then show ?case by simp
next
  case (Cons a as)
  then obtain w1 where 1: "step a w = Inr w1" and 2: "run as w1 = Inr w'"
    by (auto split: sum.splits)
  have "n < next_node w1" using step_next_node [OF 1] Cons.prems(2) by simp
  from Cons.IH [OF 2 this] step_kept [OF 1 Cons.prems(2)] show ?case by simp
qed

subsection \<open>Only nodes that hold an instance listen\<close>

lemma listeners_mountedD:
  "listeners_mounted w \<Longrightarrow> (s, OnChange n k) \<in> set (updateSubscribers (mvs w m)) \<Longrightarrow>
   n < next_node w \<and> truthy (element (nodes w n))"
  unfolding listeners_mounted_def by blast

lemma subscribers_addValue:
  "set (updateSubscribers (mvs (addValue n k m w) m')) \<subseteq>
     set (updateSubscribers (mvs w m')) \<union>
     (if truthy (element (nodes w n)) then {(next_sub w, OnChange n k)} else {})"
proof (cases "\<not> truthy (element (nodes w n))")
  case True
  then show ?thesis
    using mvs_removeValue_subset [of n k w m'] by (simp add: mvs_addValue_unmounted)
next
  case False
  then show ?thesis
    using mvs_removeValue_subset [of n k w m'] by (auto simp: mvs_addValue_mounted Let_def)
qed

lemma forEach_subscribe_new:
  "(s, cb) \<in> set (updateSubscribers (mvs (forEach_entries n (\<lambda>m k. subscribeToValue n k m) ps w) m)) \<Longrightarrow>
   (s, cb) \<in> set (updateSubscribers (mvs w m)) \<or> (\<exists>k. cb = OnChange n k)"
proof (induction ps arbitrary: w)
  case Nil
  then show ?case by simp
next
  case (Cons p ps)
  show ?case
  proof (cases "p \<in> set (values_map (nodes w n))")
    case True
    with Cons.prems have "(s, cb) \<in> set (updateSubscribers
        (mvs (forEach_entries n (\<lambda>m k. subscribeToValue n k m) ps (subscribeToValue n (fst p) (snd p) w)) m))"
      by simp
    from Cons.IH [OF this] show ?thesis
      by (auto simp: mvs_subscribeToValue split: if_splits)
  next
    case False
    with Cons.prems Cons.IH [of w] show ?thesis by simp
  qed
qed

lemma listeners_mounted_mount:
  assumes inv: "listeners_mounted w" and n: "n < next_node w" and m: "mount n el w = Inr w'"
  shows "listeners_mounted w'"
proof -
  from m have el: "truthy el" by (rule mount_returns)
  let ?w0 = "upd_node n (\<lambda>nd. nd\<lparr>element := el, current := el\<rparr>) w"
  have w': "w' = forEach_entries n (\<lambda>m k. subscribeToValue n k m) (values_map (nodes w n)) ?w0"
    using m el by (simp add: mount_truthy forEachValue_def upd_node_def)
  have nn: "next_node w' = next_node w" by (rule next_node_mount [OF m])
  have en: "truthy (element (nodes w' n))" using el element_mount [OF m] by simp
  have other: "\<And>n'. n' \<noteq> n \<Longrightarrow> nodes w' n' = nodes w n'" by (rule nodes_mount_other [OF m])
  show ?thesis
    unfolding listeners_mounted_def
  proof (intro allI impI)
    fix m' s n' k
    assume "(s, OnChange n' k) \<in> set (updateSubscribers (mvs w' m'))"
    then have "(s, OnChange n' k) \<in> set (updateSubscribers (mvs ?w0 m')) \<or> (\<exists>k'. OnChange n' k = OnChange n k')"
      unfolding w' by (rule forEach_subscribe_new)
    then have "(s, OnChange n' k) \<in> set (updateSubscribers (mvs w m')) \<or> n' = n"
      by (auto simp: upd_node_def)
    then show "n' < next_node w' \<and> truthy (element (nodes w' n'))"
    proof
      assume "(s, OnChange n' k) \<in> set (updateSubscribers (mvs w m'))"
      with inv have "n' < next_node w \<and> truthy (element (nodes w n'))"
        by (rule listeners_mountedD)
      then show ?thesis using nn en other [of n'] by (cases "n' = n") auto
    next
      assume "n' = n"
      then show ?thesis using nn n en by simp
    qed
  qed
qed

lemma listeners_mounted_unmount:
  assumes "listeners_mounted w"
  shows "listeners_mounted (unmount n w)"
  unfolding listeners_mounted_def
proof (intro allI impI)
  fix m s n' k
  assume "(s, OnChange n' k) \<in> set (updateSubscribers (mvs (unmount n w) m))"
  then have "(s, OnChange n' k) \<in> set (updateSubscribers (mvs w m))"
    using forEach_remove_subscribers [of n "values_map (nodes w n)" w m]
    by (auto simp: unmount_def cancelSync_render_def cancelSync_update_def forEachValue_def)
  with assms have "n' < next_node w \<and> truthy (element (nodes w n'))"
    by (rule listeners_mountedD)
  then show "n' < next_node (unmount n w) \<and> truthy (element (nodes (unmount n w) n'))"
    using kept_bindings [OF nodes_unmount_kept, of n w n'] by (simp add: rest_unmount)
qed

lemma listeners_mounted_addValue:
  assumes "listeners_mounted w" and "n < next_node w"
  shows "listeners_mounted (addValue n k m w)"
  unfolding listeners_mounted_def
proof (intro allI impI)
  fix m' s n' k'
  assume "(s, OnChange n' k') \<in> set (updateSubscribers (mvs (addValue n k m w) m'))"
  with subscribers_addValue [of n k m w m']
  have "(s, OnChange n' k') \<in> set (updateSubscribers (mvs w m')) \<or>
        (truthy (element (nodes w n)) \<and> n' = n)"
    by (auto split: if_splits)
  with assms have "n' < next_node w \<and> truthy (element (nodes w n'))"
    by (auto dest: listeners_mountedD)
  then show "n' < next_node (addValue n k m w) \<and> truthy (element (nodes (addValue n k m w) n'))"
    by (simp add: rest_addValue element_addValue)
qed

lemma listeners_mounted_cong:
  assumes "listeners_mounted w"
    and "\<And>m. set (updateSubscribers (mvs w' m)) \<subseteq> set (updateSubscribers (mvs w m))"
    and "\<And>n. n < next_node w \<Longrightarrow> element (nodes w' n) = element (nodes w n)"
    and "next_node w \<le> next_node w'"
  shows "listeners_mounted w'"
  unfolding listeners_mounted_def
proof (intro allI impI)
  fix m s n k
  assume "(s, OnChange n k) \<in> set (updateSubscribers (mvs w' m))"
  with assms(2) have "(s, OnChange n k) \<in> set (updateSubscribers (mvs w m))" by blast
  with assms(1) have "n < next_node w \<and> truthy (element (nodes w n))"
    by (rule listeners_mountedD)
  with assms(3) [of n] assms(4) show "n < next_node w' \<and> truthy (element (nodes w' n))" by simp
qed

lemma listeners_mounted_step:
  assumes inv: "listeners_mounted w" and ad: "addressed a w" and st: "step a w = Inr w'"
  shows "listeners_mounted w'"
proof (cases a)
  case (DoNew p r)
  with st have "w' = snd (new_VisualElement p r w)" by simp
  then show ?thesis
    by (intro listeners_mounted_cong [OF inv]) (simp_all add: new_VisualElement_def)
next
  case (DoNewMotionValue x)
  with st have "w' = snd (new_MotionValue x w)" by simp
  then show ?thesis
    by (intro listeners_mounted_cong [OF inv]) (simp_all add: new_MotionValue_def)
next
  case (DoAddValue n k m)
  with st ad listeners_mounted_addValue [OF inv, of n k m] show ?thesis by simp
next
  case (DoRemoveValue n k)
  with st have w': "w' = removeValue n k w" by simp
  show ?thesis
    unfolding w' using mvs_removeValue_subset [of n k w]
    by (intro listeners_mounted_cong [OF inv]) (simp_all add: nodes_removeValue rest_removeValue)
next
  case (DoGetValue n k d)
  show ?thesis
  proof (cases "Map_get k (values_map (nodes w n)) = None \<and> d \<noteq> None")
    case False
    with DoGetValue st have "w' = w" by (auto simp: getValue_def split: option.splits)
    with inv show ?thesis by simp
  next
    case True
    then obtain x where d: "d = Some x" by auto
    let ?w1 = "snd (new_MotionValue x w)"
    have w': "w' = addValue n k (next_mv w) ?w1"
      using DoGetValue st True d by (simp add: getValue_def new_MotionValue_def)
    have "listeners_mounted ?w1"
      by (intro listeners_mounted_cong [OF inv]) (simp_all add: new_MotionValue_def)
    moreover have "n < next_node ?w1" using ad DoGetValue by (simp add: new_MotionValue_def)
    ultimately show ?thesis unfolding w' by (rule listeners_mounted_addValue)
  qed
next
  case (DoUpdateConfig n c)
  with st have w': "w' = updateConfig n c w" by simp
  show ?thesis
    unfolding w'
    by (intro listeners_mounted_cong [OF inv]) (simp_all add: updateConfig_def upd_node_def)
next
  case (DoSetStaticValues n vs)
  with st have w': "w' = setStaticValues n vs w" by simp
  show ?thesis
    unfolding w'
    by (intro listeners_mounted_cong [OF inv]; subst setStaticValues_frame) simp_all
next
  case (DoScheduleRender n)
  with st have w': "w' = scheduleRender n w" by simp
  show ?thesis
    unfolding w'
    by (intro listeners_mounted_cong [OF inv]) (simp_all add: scheduleRender_def sync_render_def)
next
  case (DoMount n el)
  with st ad show ?thesis using listeners_mounted_mount [OF inv, of n el w'] by simp
next
  case (DoUnmount n)
  with st show ?thesis using listeners_mounted_unmount [OF inv, of n] by simp
next
  case (DoRef n el)
  show ?thesis
  proof (cases "truthy el")
    case False
    with DoRef st ref_falsy [of el n w] have eq: "nodes w' = nodes (unmount n w)"
      "mvs w' = mvs (unmount n w)" "next_node w' = next_node (unmount n w)" by auto
    show ?thesis
      by (rule listeners_mounted_cong [OF listeners_mounted_unmount [OF inv, of n]]) (simp_all add: eq)
  next
    case True
    from DoRef st have r: "ref n el w = Inr w'" by simp
    obtain w1 where m: "mount n el w = Inr w1" and eq: "nodes w' = nodes w1"
      "next_node w' = next_node w1" and mv: "mvs w' = mvs w1" using ref_truthy [OF True r] by blast
    have "listeners_mounted w1" using listeners_mounted_mount [OF inv _ m] ad DoRef by simp
    then show ?thesis by (rule listeners_mounted_cong) (simp_all add: eq mv)
  qed
next
  case (DoChange m x)
  with st have w': "w' = MotionValue_change m x w" by simp
  show ?thesis
    unfolding w' using kept_latest [OF nodes_change_kept, of m x w]
    by (intro listeners_mounted_cong [OF inv]) (simp_all add: mvs_change rest_change)
next
  case (DoRequestRender m)
  with st have w': "w' = MotionValue_requestRender m w" by simp
  show ?thesis
    unfolding w' using kept_latest [OF nodes_requestRender_kept, of m w]
    by (intro listeners_mounted_cong [OF inv]) (simp_all add: rest_requestRender)
next
  case DoTick
  with st tick_nodes [of w w'] show ?thesis
    by (intro listeners_mounted_cong [OF inv]) simp_all
qed

lemma reachable_listeners_mounted: "reachable w \<Longrightarrow> listeners_mounted w"
proof (induction rule: reachable.induct)
  case reachable_init
  then show ?case by (simp add: listeners_mounted_def init_world_def)
next
  case (reachable_step w a w')
  then show ?case by (blast intro: listeners_mounted_step)
qed


text \<open>With distinct keys, as a mapping has them, every entry of the batch is stored.\<close>

lemma setStaticValues_batch_entry:
  assumes "distinct (map fst kvs)" and "(k, x) \<in> set kvs" and "k \<noteq> ''__proto__''"
  shows "latest (nodes (setStaticValues n (Batch kvs) w) n) k = Some x"
proof -
  let ?st = "stored_entries (latest (nodes w n)) kvs"
  have "distinct (map fst ?st)"
    using assms(1) unfolding stored_entries_def by (simp add: distinct_map_filter)
  then have "distinct (map fst (rev ?st))" by (simp add: rev_map [symmetric])
  moreover have "(k, x) \<in> set (rev ?st)"
    using assms(2,3) by (simp add: stored_entries_def)
  ultimately have "map_of (rev ?st) k = Some x" by (rule map_of_is_SomeI)
  then show ?thesis by (subst setStaticValues_frame) (simp add: map_add_def)
qed

lemma nest_depth:
  "0 < i \<Longrightarrow>
   \<exists>n. fst (nest i p w) = Some n \<and>
       depth (nodes (snd (nest i p w)) n) =
         (case p of None \<Rightarrow> i - 1 | Some q \<Rightarrow> depth (nodes w q) + i)"
proof (induction i arbitrary: p w)
  case 0
  then show ?case by simp
next
  case (Suc i)
  let ?n0 = "next_node w"
  let ?w0 = "snd (new_VisualElement p None w)"
  have d0: "depth (nodes ?w0 ?n0) = (case p of Some q \<Rightarrow> depth (nodes w q) + 1 | None \<Rightarrow> 0)"
    by (simp add: new_VisualElement_def)
  have unfold: "nest (Suc i) p w = nest i (Some ?n0) ?w0"
    by (simp add: split_beta) (simp add: new_VisualElement_def)
  show ?case
  proof (cases "i = 0")
    case True
    with d0 show ?thesis unfolding unfold by (cases p) simp_all
  next
    case False
    then have "0 < i" by simp
    from Suc.IH [OF this, of "Some ?n0" ?w0] d0
    show ?thesis unfolding unfold by (cases p) auto
  qed
qed

lemma tick_TypeError_iff:
  "tick w = Inl TypeError \<longleftrightarrow>
     (\<exists>n. Update n \<in> set (updateQueue w @ renderQueue w) \<and> onUpdate (config (nodes w n)) = None)"
proof
  assume t: "tick w = Inl TypeError"
  show "\<exists>n. Update n \<in> set (updateQueue w @ renderQueue w) \<and> onUpdate (config (nodes w n)) = None"
  proof (rule ccontr)
    assume neg: "\<not> ?thesis"
    have "\<exists>w'. run_all (updateQueue w @ renderQueue w) (w\<lparr>updateQueue := [], renderQueue := []\<rparr>) = Inr w'"
    proof (rule run_all_ok)
      fix n
      assume "Update n \<in> set (updateQueue w @ renderQueue w)"
      with neg show "onUpdate (config (nodes (w\<lparr>updateQueue := [], renderQueue := []\<rparr>) n)) \<noteq> None"
        by auto
    qed
    with t show False by (simp add: tick_def)
  qed
next
  assume "\<exists>n. Update n \<in> set (updateQueue w @ renderQueue w) \<and> onUpdate (config (nodes w n)) = None"
  then obtain n where q: "Update n \<in> set (updateQueue w @ renderQueue w)"
    and c: "onUpdate (config (nodes w n)) = None" by blast
  from c have "onUpdate (config (nodes (w\<lparr>updateQueue := [], renderQueue := []\<rparr>) n)) = None"
    by simp
  from run_all_TypeError [OF q this] show "tick w = Inl TypeError" by (simp add: tick_def)
qed



lemma distinct_Map_delete:
  "distinct (map fst ps) \<Longrightarrow> distinct (map fst (Map_delete k ps @ [(k, v)]))"
  by (induction ps) (auto simp: Map_delete_def)

lemma mvs_unmount_no_values: "values_map (nodes w n) = [] \<Longrightarrow> mvs (unmount n w) = mvs w"
  by (simp add: unmount_def cancelSync_render_def cancelSync_update_def forEachValue_def)

subsection \<open>Replacing a binding\<close>

lemma removeValue_unlistens:
  assumes "tracked w n k"
  shows "\<not> listens (removeValue n k w) n k m"
proof
  assume "listens (removeValue n k w) n k m"
  then obtain s where after: "(s, OnChange n k) \<in> set (updateSubscribers (mvs (removeValue n k w) m))"
    by (auto simp: listens_def)
  with mvs_removeValue_subset [of n k w m]
  have before: "(s, OnChange n k) \<in> set (updateSubscribers (mvs w m))" by blast
  with assms obtain r where u: "valueSubscriptions (nodes w n) k = Some (Unsubscribe m s r)"
    by (auto simp: tracked_def)
  have "(s, OnChange n k) \<notin> set (updateSubscribers (mvs (removeValue n k w) m))"
    using u by (simp add: mvs_removeValue mvs_call_unsubscribe del: call_unsubscribe.simps)
  with after show False by blast
qed

lemma listens_addValue_other:
  assumes "m' \<noteq> m" and "\<not> hasValue n k w"
  shows "listens (addValue n k m w) n k m' = listens w n k m'"
proof (cases "\<not> truthy (element (nodes w n))")
  case True
  with assms show ?thesis by (simp add: listens_def mvs_addValue_unmounted)
next
  case False
  with assms show ?thesis by (simp add: listens_def mvs_addValue_mounted Let_def)
qed

lemma tracked_install:
  assumes "\<forall>m. \<not> listens w n k m" and "\<not> hasValue n k w"
  shows "tracked (addValue n k m w) n k"
proof (cases "\<not> truthy (element (nodes w n))")
  case True
  with assms show ?thesis
    by (force simp: tracked_def listens_def mvs_addValue_unmounted)
next
  case False
  have none: "\<And>m' s. (s, OnChange n k) \<notin> set (updateSubscribers (mvs w m'))"
    using assms(1) by (force simp: listens_def)
  show ?thesis
    unfolding tracked_def
  proof (intro allI impI)
    fix m' s
    assume "(s, OnChange n k) \<in> set (updateSubscribers (mvs (addValue n k m w) m'))"
    with False assms(2) none have "m' = m \<and> s = next_sub w"
      by (auto simp: mvs_addValue_mounted Let_def split: if_splits)
    with False show "\<exists>r. valueSubscriptions (nodes (addValue n k m w) n) k = Some (Unsubscribe m' s r)"
      by (simp add: subs_addValue_mounted)
  qed
qed

lemma hasValue_removeValue: "\<not> hasValue n k (removeValue n k w)"
  by (simp add: hasValue_def nodes_removeValue Map_has_delete)

subsection \<open>Cancelling on unmount\<close>

text \<open>
  \<open>unmount\<close> cancels \<open>this.update\<close>, so no update of the node stays queued, and it
  leaves every other entry of the update phase where it is.
\<close>

lemma unmount_cancels_update:
  "Update n \<notin> set (updateQueue (unmount n w)) \<and>
   (\<forall>p. p \<noteq> Update n \<longrightarrow> (p \<in> set (updateQueue (unmount n w)) \<longleftrightarrow> p \<in> set (updateQueue w)))"
  by (simp add: queues_unmount)

text \<open>
  In the render phase it cancels \<open>this.render\<close>, and the entry \<open>scheduleRender\<close> made is
  \<open>this.triggerRender\<close>: every scheduled render, of this node and of the others, stays
  queued.
\<close>

lemma unmount_keeps_scheduled_render:
  "TriggerRender n' \<in> set (renderQueue (unmount n (scheduleRender n' w)))"
  by (simp add: queues_unmount scheduleRender_def sync_render_def)

subsection \<open>Subscriptions stay tracked while every mount is fresh\<close>

lemma Map_has_delete_other: "k' \<noteq> k \<Longrightarrow> Map_has k' (Map_delete k ps) = Map_has k' ps"
  by (induction ps) (auto simp: Map_has_def Map_delete_def)

lemma Map_has_append: "Map_has k (ps @ qs) = (Map_has k ps \<or> Map_has k qs)"
  by (auto simp: Map_has_def map_add_def split: option.splits)

lemma node_tracked_mono:
  assumes nt: "node_tracked w n"
    and sub: "\<And>m s k. (s, OnChange n k) \<in> set (updateSubscribers (mvs w' m)) \<Longrightarrow>
           (s, OnChange n k) \<in> set (updateSubscribers (mvs w m))"
    and vs: "valueSubscriptions (nodes w' n) = valueSubscriptions (nodes w n)"
    and vm: "values_map (nodes w' n) = values_map (nodes w n)"
  shows "node_tracked w' n"
  unfolding node_tracked_def
proof (intro conjI allI impI)
  fix k
  from nt have t: "tracked w n k" by (simp add: node_tracked_def)
  show "tracked w' n k"
    unfolding tracked_def
  proof (intro allI impI)
    fix m s
    assume "(s, OnChange n k) \<in> set (updateSubscribers (mvs w' m))"
    then have "(s, OnChange n k) \<in> set (updateSubscribers (mvs w m))" by (rule sub)
    with t obtain r where "valueSubscriptions (nodes w n) k = Some (Unsubscribe m s r)"
      unfolding tracked_def by blast
    then show "\<exists>r. valueSubscriptions (nodes w' n) k = Some (Unsubscribe m s r)"
      by (simp add: vs)
  qed
next
  fix k
  assume "valueSubscriptions (nodes w' n) k \<noteq> None"
  then have "valueSubscriptions (nodes w n) k \<noteq> None" by (simp add: vs)
  with nt have "hasValue n k w" unfolding node_tracked_def by blast
  then show "hasValue n k w'" by (simp add: hasValue_def vm)
next
  from nt show "distinct (map fst (values_map (nodes w' n)))" by (simp add: node_tracked_def vm)
qed

lemma subs_addValue_other_key:
  "k' \<noteq> k \<Longrightarrow> valueSubscriptions (nodes (addValue n k m w) n) k' = valueSubscriptions (nodes w n) k'"
  by (simp add: addValue_unfold)

lemma node_tracked_removeValue:
  assumes "node_tracked w n"
  shows "node_tracked (removeValue n k w) n"
  unfolding node_tracked_def
proof (intro conjI allI impI)
  fix k'
  show "tracked (removeValue n k w) n k'"
  proof (cases "k' = k")
    case True
    from assms have "tracked w n k" by (simp add: node_tracked_def)
    from removeValue_unlistens [OF this] show ?thesis
      unfolding True tracked_def listens_def by force
  next
    case False
    from assms have t: "tracked w n k'" by (simp add: node_tracked_def)
    show ?thesis
      unfolding tracked_def
    proof (intro allI impI)
      fix m s
      assume "(s, OnChange n k') \<in> set (updateSubscribers (mvs (removeValue n k w) m))"
      with mvs_removeValue_subset [of n k w m]
      have "(s, OnChange n k') \<in> set (updateSubscribers (mvs w m))" by blast
      with t obtain r where "valueSubscriptions (nodes w n) k' = Some (Unsubscribe m s r)"
        unfolding tracked_def by blast
      with False show "\<exists>r. valueSubscriptions (nodes (removeValue n k w) n) k' = Some (Unsubscribe m s r)"
        by (simp add: nodes_removeValue)
    qed
  qed
next
  fix k'
  assume c: "valueSubscriptions (nodes (removeValue n k w) n) k' \<noteq> None"
  then have ne: "k' \<noteq> k" by (auto simp: nodes_removeValue)
  with c have "valueSubscriptions (nodes w n) k' \<noteq> None" by (simp add: nodes_removeValue)
  with assms have "hasValue n k' w" by (simp add: node_tracked_def)
  with ne show "hasValue n k' (removeValue n k w)"
    by (simp add: hasValue_def nodes_removeValue Map_has_delete_other)
next
  from assms have "distinct (map fst (values_map (nodes w n)))" by (simp add: node_tracked_def)
  then show "distinct (map fst (values_map (nodes (removeValue n k w) n)))"
    by (simp add: nodes_removeValue Map_delete_def distinct_map_filter)
qed


lemma node_tracked_install:
  assumes nt: "node_tracked w n" and nh: "\<not> hasValue n k w"
  shows "node_tracked (addValue n k m w) n"
  unfolding node_tracked_def
proof (intro conjI allI impI)
  from nt nh have nc: "valueSubscriptions (nodes w n) k = None"
    unfolding node_tracked_def by blast
  from nt have tk: "tracked w n k" by (simp add: node_tracked_def)
  have deaf: "\<forall>m. \<not> listens w n k m"
  proof (intro allI notI)
    fix m'
    assume "listens w n k m'"
    then obtain s where "(s, OnChange n k) \<in> set (updateSubscribers (mvs w m'))"
      by (auto simp: listens_def)
    with tk nc show False unfolding tracked_def by force
  qed
  fix k'
  show "tracked (addValue n k m w) n k'"
  proof (cases "k' = k")
    case True
    show ?thesis unfolding True by (rule tracked_install [OF deaf nh])
  next
    case False
    from nt have t: "tracked w n k'" by (simp add: node_tracked_def)
    show ?thesis
      unfolding tracked_def
    proof (intro allI impI)
      fix m' s
      assume "(s, OnChange n k') \<in> set (updateSubscribers (mvs (addValue n k m w) m'))"
      with subscribers_addValue [of n k m w m'] False
      have "(s, OnChange n k') \<in> set (updateSubscribers (mvs w m'))"
        by (auto split: if_splits)
      with t obtain r where "valueSubscriptions (nodes w n) k' = Some (Unsubscribe m' s r)"
        unfolding tracked_def by blast
      with False show "\<exists>r. valueSubscriptions (nodes (addValue n k m w) n) k' = Some (Unsubscribe m' s r)"
        by (simp add: subs_addValue_other_key)
    qed
  qed
next
  fix k'
  assume c: "valueSubscriptions (nodes (addValue n k m w) n) k' \<noteq> None"
  show "hasValue n k' (addValue n k m w)"
  proof (cases "k' = k")
    case True
    then show ?thesis by (simp add: hasValue_addValue)
  next
    case False
    with c have "valueSubscriptions (nodes w n) k' \<noteq> None" by (simp add: subs_addValue_other_key)
    with nt have "hasValue n k' w" unfolding node_tracked_def by blast
    with False show ?thesis
      by (simp add: hasValue_def values_addValue Map_has_append Map_has_delete_other)
  qed
next
  from nt have "distinct (map fst (values_map (nodes w n)))" by (simp add: node_tracked_def)
  then show "distinct (map fst (values_map (nodes (addValue n k m w) n)))"
    unfolding values_addValue by (rule distinct_Map_delete)
qed

lemma node_tracked_addValue:
  assumes "node_tracked w n"
  shows "node_tracked (addValue n k m w) n"
proof (cases "hasValue n k w")
  case True
  have "node_tracked (addValue n k m (removeValue n k w)) n"
    by (rule node_tracked_install [OF node_tracked_removeValue [OF assms] hasValue_removeValue])
  then show ?thesis by (simp add: addValue_replace [OF True])
next
  case False
  then show ?thesis by (rule node_tracked_install [OF assms])
qed

text \<open>Another node's part of the store is not disturbed by calls on node \<open>n\<close>.\<close>

lemma node_tracked_addValue_other:
  assumes "node_tracked w n'" and "n' \<noteq> n"
  shows "node_tracked (addValue n k m w) n'"
proof (rule node_tracked_mono [OF assms(1)])
  fix m' s k'
  assume "(s, OnChange n' k') \<in> set (updateSubscribers (mvs (addValue n k m w) m'))"
  with subscribers_addValue [of n k m w m'] assms(2)
  show "(s, OnChange n' k') \<in> set (updateSubscribers (mvs w m'))" by (auto split: if_splits)
qed (simp_all add: nodes_addValue_other assms(2))

lemma node_tracked_removeValue_other:
  assumes "node_tracked w n'" and "n' \<noteq> n"
  shows "node_tracked (removeValue n k w) n'"
proof (rule node_tracked_mono [OF assms(1)])
  fix m' s k'
  assume "(s, OnChange n' k') \<in> set (updateSubscribers (mvs (removeValue n k w) m'))"
  with mvs_removeValue_subset [of n k w m']
  show "(s, OnChange n' k') \<in> set (updateSubscribers (mvs w m'))" by blast
qed (simp_all add: nodes_removeValue assms(2))

lemma node_tracked_forEach_remove:
  "node_tracked w n' \<Longrightarrow> node_tracked (forEach_entries n (\<lambda>m k. removeValue n k) ps w) n'"
proof (induction ps arbitrary: w)
  case Nil
  then show ?case by simp
next
  case (Cons p ps)
  have "node_tracked (removeValue n (fst p) w) n'"
    using Cons.prems node_tracked_removeValue [of w n "fst p"]
      node_tracked_removeValue_other [of w n' n "fst p"]
    by (cases "n' = n") auto
  from Cons.IH [OF this] Cons.IH [OF Cons.prems] show ?case by simp
qed

lemma node_tracked_unmount: "node_tracked w n' \<Longrightarrow> node_tracked (unmount n w) n'"
proof -
  assume a: "node_tracked w n'"
  let ?w1 = "forEach_entries n (\<lambda>m k. removeValue n k) (values_map (nodes w n)) w"
  have 1: "node_tracked ?w1 n'" by (rule node_tracked_forEach_remove [OF a])
  show ?thesis
    by (rule node_tracked_mono [OF 1])
      (simp_all add: unmount_def cancelSync_render_def cancelSync_update_def forEachValue_def)
qed


lemma listens_subscribeToValue:
  "listens (subscribeToValue n k m w) n' k' m' =
     (listens w n' k' m' \<or> (n' = n \<and> k' = k \<and> m' = m))"
  by (auto simp: listens_def mvs_subscribeToValue image_iff)

lemma tracked_subscribeToValue:
  assumes "\<forall>k. tracked w n k" and "\<forall>m'. \<not> listens w n k m'"
  shows "tracked (subscribeToValue n k m w) n k'"
  unfolding tracked_def
proof (intro allI impI)
  fix m' s
  assume a: "(s, OnChange n k') \<in> set (updateSubscribers (mvs (subscribeToValue n k m w) m'))"
  show "\<exists>r. valueSubscriptions (nodes (subscribeToValue n k m w) n) k' = Some (Unsubscribe m' s r)"
  proof (cases "(s, OnChange n k') \<in> set (updateSubscribers (mvs w m'))")
    case True
    then have "listens w n k' m'" by (force simp: listens_def)
    with assms(2) have ne: "k' \<noteq> k" by blast
    from assms(1) True obtain r where "valueSubscriptions (nodes w n) k' = Some (Unsubscribe m' s r)"
      unfolding tracked_def by blast
    with ne show ?thesis by (simp add: nodes_subscribeToValue)
  next
    case False
    with a have "m' = m \<and> s = next_sub w \<and> k' = k"
      by (auto simp: mvs_subscribeToValue split: if_splits)
    then show ?thesis by (simp add: nodes_subscribeToValue)
  qed
qed

lemma tracked_forEach_subscribe:
  assumes "distinct (map fst ps)"
    and "\<And>k m. k \<in> fst ` set ps \<Longrightarrow> \<not> listens w n k m"
    and "\<forall>k. tracked w n k"
  shows "\<forall>k. tracked (forEach_entries n (\<lambda>m k. subscribeToValue n k m) ps w) n k"
  using assms
proof (induction ps arbitrary: w)
  case Nil
  then show ?case by simp
next
  case (Cons p ps)
  have d: "distinct (map fst ps)" and notin: "fst p \<notin> fst ` set ps" using Cons.prems(1) by auto
  show ?case
  proof (cases "p \<in> set (values_map (nodes w n))")
    case True
    let ?w1 = "subscribeToValue n (fst p) (snd p) w"
    have deaf: "\<forall>m'. \<not> listens w n (fst p) m'" using Cons.prems(2) [of "fst p"] by simp
    have t1: "\<forall>k. tracked ?w1 n k"
      using tracked_subscribeToValue [OF Cons.prems(3) deaf] by blast
    have l1: "\<not> listens ?w1 n k m" if "k \<in> fst ` set ps" for k m
    proof -
      from that notin have "k \<noteq> fst p" by blast
      moreover from that have "\<not> listens w n k m" using Cons.prems(2) [of k m] by simp
      ultimately show ?thesis by (simp add: listens_subscribeToValue)
    qed
    from Cons.IH [OF d l1 t1] True show ?thesis by simp
  next
    case False
    have "\<And>k m. k \<in> fst ` set ps \<Longrightarrow> \<not> listens w n k m" using Cons.prems(2) by simp
    from Cons.IH [OF d this Cons.prems(3)] False show ?thesis by simp
  qed
qed

lemma subs_forEach_subscribe:
  "valueSubscriptions (nodes (forEach_entries n (\<lambda>m k. subscribeToValue n k m) ps w) n) k \<noteq> None \<Longrightarrow>
   valueSubscriptions (nodes w n) k \<noteq> None \<or> Map_has k (values_map (nodes w n))"
proof (induction ps arbitrary: w)
  case Nil
  then show ?case by simp
next
  case (Cons p ps)
  show ?case
  proof (cases "p \<in> set (values_map (nodes w n))")
    case True
    let ?w1 = "subscribeToValue n (fst p) (snd p) w"
    from Cons.prems True
    have "valueSubscriptions (nodes (forEach_entries n (\<lambda>m k. subscribeToValue n k m) ps ?w1) n) k \<noteq> None"
      by simp
    from Cons.IH [OF this]
    have "valueSubscriptions (nodes ?w1 n) k \<noteq> None \<or> Map_has k (values_map (nodes w n))"
      by (simp add: values_subscribeToValue)
    moreover have "Map_has (fst p) (values_map (nodes w n))"
      using True by (simp add: Map_has_def map_of_eq_None_iff image_iff) (metis fst_conv)
    ultimately show ?thesis by (auto simp: nodes_subscribeToValue split: if_splits)
  next
    case False
    with Cons.prems Cons.IH [of w] show ?thesis by simp
  qed
qed

lemma node_tracked_mount:
  assumes nt: "node_tracked w n" and fresh: "valueSubscriptions (nodes w n) = Map.empty"
    and m: "mount n el w = Inr w'"
  shows "node_tracked w' n"
proof -
  from m have el: "truthy el" by (rule mount_returns)
  let ?w0 = "upd_node n (\<lambda>nd. nd\<lparr>element := el, current := el\<rparr>) w"
  have w': "w' = forEach_entries n (\<lambda>m k. subscribeToValue n k m) (values_map (nodes w n)) ?w0"
    using m el by (simp add: mount_truthy forEachValue_def upd_node_def)
  have nt0: "node_tracked ?w0 n"
    by (rule node_tracked_mono [OF nt]) (simp_all add: upd_node_def)
  have fresh0: "valueSubscriptions (nodes ?w0 n) = Map.empty" using fresh by (simp add: upd_node_def)
  have v0: "values_map (nodes ?w0 n) = values_map (nodes w n)" by (simp add: upd_node_def)
  have deaf: "\<not> listens ?w0 n k m'" for k m'
  proof
    assume "listens ?w0 n k m'"
    then obtain s where "(s, OnChange n k) \<in> set (updateSubscribers (mvs ?w0 m'))"
      by (auto simp: listens_def)
    with nt0 fresh0 show False unfolding node_tracked_def tracked_def by force
  qed
  have vals: "values_map (nodes w' n) = values_map (nodes w n)"
    using kept_mount [OF nodes_mount_kept [OF m], of n] by simp
  show ?thesis
    unfolding node_tracked_def
  proof (intro conjI allI impI)
    fix k
    have "\<forall>k. tracked w' n k"
      unfolding w'
    proof (rule tracked_forEach_subscribe)
      show "distinct (map fst (values_map (nodes w n)))" using nt by (simp add: node_tracked_def)
      show "\<And>k m. k \<in> fst ` set (values_map (nodes w n)) \<Longrightarrow> \<not> listens ?w0 n k m" by (rule deaf)
      show "\<forall>k. tracked ?w0 n k" using nt0 by (simp add: node_tracked_def)
    qed
    then show "tracked w' n k" by blast
  next
    fix k
    assume "valueSubscriptions (nodes w' n) k \<noteq> None"
    then have "valueSubscriptions (nodes ?w0 n) k \<noteq> None \<or> Map_has k (values_map (nodes ?w0 n))"
      unfolding w' unfolding v0 [symmetric] by (rule subs_forEach_subscribe)
    with fresh0 have "Map_has k (values_map (nodes w n))" by (simp add: v0)
    then show "hasValue n k w'" by (simp add: hasValue_def vals)
  next
    from nt show "distinct (map fst (values_map (nodes w' n)))" by (simp add: node_tracked_def vals)
  qed
qed

lemma node_tracked_mount_other:
  assumes nt: "node_tracked w n'" and ne: "n' \<noteq> n" and m: "mount n el w = Inr w'"
  shows "node_tracked w' n'"
proof (rule node_tracked_mono [OF nt])
  from m have el: "truthy el" by (rule mount_returns)
  let ?w0 = "upd_node n (\<lambda>nd. nd\<lparr>element := el, current := el\<rparr>) w"
  have w': "w' = forEach_entries n (\<lambda>m k. subscribeToValue n k m) (values_map (nodes w n)) ?w0"
    using m el by (simp add: mount_truthy forEachValue_def upd_node_def)
  fix m' s k
  assume "(s, OnChange n' k) \<in> set (updateSubscribers (mvs w' m'))"
  then have "(s, OnChange n' k) \<in> set (updateSubscribers (mvs ?w0 m')) \<or> (\<exists>k'. OnChange n' k = OnChange n k')"
    unfolding w' by (rule forEach_subscribe_new)
  with ne show "(s, OnChange n' k) \<in> set (updateSubscribers (mvs w m'))"
    by (auto simp: upd_node_def)
qed (simp_all add: nodes_mount_other [OF m ne])


lemma bindings_tracked_cong:
  assumes "bindings_tracked w"
    and "\<And>m. set (updateSubscribers (mvs w' m)) \<subseteq> set (updateSubscribers (mvs w m))"
    and "\<And>n. valueSubscriptions (nodes w' n) = valueSubscriptions (nodes w n)"
    and "\<And>n. values_map (nodes w' n) = values_map (nodes w n)"
  shows "bindings_tracked w'"
  unfolding bindings_tracked_def
proof
  fix n
  from assms(1) have nt: "node_tracked w n" by (simp add: bindings_tracked_def)
  show "node_tracked w' n"
  proof (rule node_tracked_mono [OF nt])
    fix m s k
    assume "(s, OnChange n k) \<in> set (updateSubscribers (mvs w' m))"
    with assms(2) [of m] show "(s, OnChange n k) \<in> set (updateSubscribers (mvs w m))" by blast
  qed (simp_all add: assms(3) assms(4))
qed

lemma bindings_tracked_addValue: "bindings_tracked w \<Longrightarrow> bindings_tracked (addValue n k m w)"
  unfolding bindings_tracked_def
  using node_tracked_addValue [of w n k m] node_tracked_addValue_other [of w _ n k m]
  by (metis)

lemma bindings_tracked_unmount: "bindings_tracked w \<Longrightarrow> bindings_tracked (unmount n w)"
  by (auto simp: bindings_tracked_def node_tracked_unmount)

lemma bindings_tracked_mount:
  assumes "bindings_tracked w" and "valueSubscriptions (nodes w n) = Map.empty"
    and "mount n el w = Inr w'"
  shows "bindings_tracked w'"
  unfolding bindings_tracked_def
proof
  fix n'
  from assms(1) have nt: "node_tracked w n'" by (simp add: bindings_tracked_def)
  show "node_tracked w' n'"
  proof (cases "n' = n")
    case True
    with nt assms(2,3) show ?thesis by (simp add: node_tracked_mount)
  next
    case False
    with nt assms(3) show ?thesis by (simp add: node_tracked_mount_other)
  qed
qed

lemma bindings_tracked_new:
  assumes bt: "bindings_tracked w" and lm: "listeners_mounted w"
  shows "bindings_tracked (snd (new_VisualElement p r w))"
  unfolding bindings_tracked_def
proof
  fix n
  let ?w' = "snd (new_VisualElement p r w)"
  show "node_tracked ?w' n"
  proof (cases "n = next_node w")
    case True
    have "\<And>m s k. (s, OnChange n k) \<notin> set (updateSubscribers (mvs ?w' m))"
      using listeners_mountedD [OF lm] True by (fastforce simp: new_VisualElement_def)
    then show ?thesis
      using True by (simp add: node_tracked_def tracked_def hasValue_def new_VisualElement_def)
  next
    case False
    from bt have nt: "node_tracked w n" by (simp add: bindings_tracked_def)
    show ?thesis
      by (rule node_tracked_mono [OF nt]) (simp_all add: new_VisualElement_def False)
  qed
qed

lemma bindings_tracked_step:
  assumes bt: "bindings_tracked w" and lm: "listeners_mounted w"
    and fr: "fresh_mount a w" and st: "step a w = Inr w'"
  shows "bindings_tracked w'"
proof (cases a)
  case (DoNew p r)
  with st bindings_tracked_new [OF bt lm, of p r] show ?thesis by simp
next
  case (DoNewMotionValue x)
  with st have "w' = snd (new_MotionValue x w)" by simp
  then show ?thesis
    by (intro bindings_tracked_cong [OF bt]) (simp_all add: new_MotionValue_def)
next
  case (DoAddValue n k m)
  with st bindings_tracked_addValue [OF bt, of n k m] show ?thesis by simp
next
  case (DoRemoveValue n k)
  with st have w': "w' = removeValue n k w" by simp
  show ?thesis
    unfolding w' bindings_tracked_def
    using bt node_tracked_removeValue [of w n k] node_tracked_removeValue_other [of w _ n k]
    unfolding bindings_tracked_def by metis
next
  case (DoGetValue n k d)
  show ?thesis
  proof (cases "Map_get k (values_map (nodes w n)) = None \<and> d \<noteq> None")
    case False
    with DoGetValue st have "w' = w" by (auto simp: getValue_def split: option.splits)
    with bt show ?thesis by simp
  next
    case True
    then obtain x where d: "d = Some x" by auto
    let ?w1 = "snd (new_MotionValue x w)"
    have w': "w' = addValue n k (next_mv w) ?w1"
      using DoGetValue st True d by (simp add: getValue_def new_MotionValue_def)
    have "bindings_tracked ?w1"
      by (intro bindings_tracked_cong [OF bt]) (simp_all add: new_MotionValue_def)
    then show ?thesis unfolding w' by (rule bindings_tracked_addValue)
  qed
next
  case (DoUpdateConfig n c)
  with st have w': "w' = updateConfig n c w" by simp
  show ?thesis
    unfolding w'
    by (intro bindings_tracked_cong [OF bt]) (simp_all add: updateConfig_def upd_node_def)
next
  case (DoSetStaticValues n vs)
  with st have w': "w' = setStaticValues n vs w" by simp
  show ?thesis
    unfolding w'
    by (intro bindings_tracked_cong [OF bt]; subst setStaticValues_frame) simp_all
next
  case (DoScheduleRender n)
  with st have w': "w' = scheduleRender n w" by simp
  show ?thesis
    unfolding w'
    by (intro bindings_tracked_cong [OF bt]) (simp_all add: scheduleRender_def sync_render_def)
next
  case (DoMount n el)
  with st fr show ?thesis using bindings_tracked_mount [OF bt, of n el w'] by simp
next
  case (DoUnmount n)
  with st show ?thesis using bindings_tracked_unmount [OF bt, of n] by simp
next
  case (DoRef n el)
  show ?thesis
  proof (cases "truthy el")
    case False
    with DoRef st ref_falsy [of el n w] have eq: "nodes w' = nodes (unmount n w)"
      "mvs w' = mvs (unmount n w)" by auto
    show ?thesis
      by (rule bindings_tracked_cong [OF bindings_tracked_unmount [OF bt, of n]]) (simp_all add: eq)
  next
    case True
    from DoRef st have r: "ref n el w = Inr w'" by simp
    obtain w1 where m: "mount n el w = Inr w1" and eq: "nodes w' = nodes w1"
      and mv: "mvs w' = mvs w1" using ref_truthy [OF True r] by blast
    have "valueSubscriptions (nodes w n) = Map.empty" using fr DoRef True by simp
    from bindings_tracked_mount [OF bt this m]
    show ?thesis by (rule bindings_tracked_cong) (simp_all add: eq mv)
  qed
next
  case (DoChange m x)
  with st have w': "w' = MotionValue_change m x w" by simp
  show ?thesis
    unfolding w' using kept_latest [OF nodes_change_kept, of m x w]
    by (intro bindings_tracked_cong [OF bt]) (simp_all add: mvs_change)
next
  case (DoRequestRender m)
  with st have w': "w' = MotionValue_requestRender m w" by simp
  show ?thesis
    unfolding w' using kept_latest [OF nodes_requestRender_kept, of m w]
    by (intro bindings_tracked_cong [OF bt]) (simp_all add: rest_requestRender)
next
  case DoTick
  with st tick_nodes [of w w'] show ?thesis
    by (intro bindings_tracked_cong [OF bt]) simp_all
qed

lemma disciplined_reachable: "disciplined w \<Longrightarrow> reachable w"
  by (induction rule: disciplined.induct) (auto intro: reachable.intros)

lemma disciplined_bindings_tracked: "disciplined w \<Longrightarrow> bindings_tracked w"
proof (induction rule: disciplined.induct)
  case disciplined_init
  then show ?case
    by (simp add: bindings_tracked_def node_tracked_def tracked_def hasValue_def init_world_def)
next
  case (disciplined_step w a w')
  from disciplined_step.hyps(1) have "listeners_mounted w"
    by (intro reachable_listeners_mounted disciplined_reachable)
  with disciplined_step show ?case by (blast intro: bindings_tracked_step)
qed

text \<open>
  In a store built with fresh mounts only, every node's subscriptions are tracked for every
  key.
\<close>

lemma disciplined_tracked: "disciplined w \<Longrightarrow> tracked w n k"
  using disciplined_bindings_tracked [of w] by (simp add: bindings_tracked_def node_tracked_def)

text \<open>The store of a node mounted once is built with a fresh mount.\<close>

lemma mounted_store_disciplined: "disciplined mounted_store"
proof -
  let ?w1 = "snd (new_VisualElement None None (init_world :: unit world))"
  let ?w2 = "snd (new_MotionValue (Num 1) ?w1)"
  let ?w3 = "snd (new_MotionValue (Num 2) ?w2)"
  have "disciplined (init_world :: unit world)" by (rule disciplined_init)
  then have "disciplined ?w1" by (rule disciplined_step [where a = "DoNew None None"]) simp_all
  then have "disciplined ?w2" by (rule disciplined_step [where a = "DoNewMotionValue (Num 1)"]) simp_all
  then have d3: "disciplined ?w3" by (rule disciplined_step [where a = "DoNewMotionValue (Num 2)"]) simp_all
  obtain w4 where s4: "step (DoRef 0 (Instance ())) ?w3 = Inr w4"
    using ref_total [of 0 "Instance ()" ?w3] by auto
  have d4: "disciplined w4"
    by (rule disciplined_step [OF d3 _ _ s4]) (simp_all add: new_VisualElement_def new_MotionValue_def init_world_def)
  have a4: "addressed (DoAddValue 0 ''x'' 0) w4" using s4 by (auto simp: run_defs)
  have "disciplined (addValue 0 ''x'' 0 w4)"
    by (rule disciplined_step [OF d4 a4]) simp_all
  moreover have "mounted_store = addValue 0 ''x'' 0 w4" using s4 by (simp add: mounted_store_def)
  ultimately show ?thesis by simp
qed


subsection \<open>Replacing a binding whose subscription is the held one\<close>

lemma removeValue_unlistens_on:
  assumes "\<forall>s. (s, OnChange n k) \<in> set (updateSubscribers (mvs w m)) \<longrightarrow>
             (\<exists>r. valueSubscriptions (nodes w n) k = Some (Unsubscribe m s r))"
  shows "\<not> listens (removeValue n k w) n k m"
proof
  assume "listens (removeValue n k w) n k m"
  then obtain s where after: "(s, OnChange n k) \<in> set (updateSubscribers (mvs (removeValue n k w) m))"
    by (auto simp: listens_def)
  with mvs_removeValue_subset [of n k w m]
  have before: "(s, OnChange n k) \<in> set (updateSubscribers (mvs w m))" by blast
  with assms obtain r where u: "valueSubscriptions (nodes w n) k = Some (Unsubscribe m s r)"
    by blast
  have "(s, OnChange n k) \<notin> set (updateSubscribers (mvs (removeValue n k w) m))"
    using u by (simp add: mvs_removeValue mvs_call_unsubscribe del: call_unsubscribe.simps)
  with after show False by blast
qed

text \<open>
  Key \<open>k\<close> is bound to \<open>v1\<close> and every live change subscription of the node for \<open>k\<close>
  on \<open>v1\<close> is the one whose closure the node holds. Then \<open>addValue(k, v2)\<close> with another
  value is the installation of \<open>v2\<close> on the store \<open>removeValue\<close> leaves, and afterwards
  \<open>v1\<close> is not listened to: its changes leave \<open>latest[k]\<close> as it is.
\<close>

lemma replace_binding:
  assumes "Map_get k (values_map (nodes w n)) = Some v1"
    and "\<forall>s. (s, OnChange n k) \<in> set (updateSubscribers (mvs w v1)) \<longrightarrow>
           (\<exists>r. valueSubscriptions (nodes w n) k = Some (Unsubscribe v1 s r))"
    and "v1 \<noteq> v2"
  shows "addValue n k v2 w = addValue n k v2 (removeValue n k w)"
    and "\<not> hasValue n k (removeValue n k w)"
    and "latest (nodes (removeValue n k w) n) k = None"
    and "valueSubscriptions (nodes (removeValue n k w) n) k = None"
    and "Map_get k (values_map (nodes (addValue n k v2 w) n)) = Some v2"
    and "\<not> listens (addValue n k v2 w) n k v1"
    and "latest (nodes (MotionValue_change v1 x (addValue n k v2 w)) n) k =
           latest (nodes (addValue n k v2 w) n) k"
proof -
  let ?w1 = "removeValue n k w"
  let ?w2 = "addValue n k v2 w"
  have has: "hasValue n k w" using assms(1) by (simp add: hasValue_def Map_has_get)
  show rep: "?w2 = addValue n k v2 ?w1" by (rule addValue_replace [OF has])
  show nh: "\<not> hasValue n k ?w1" by (rule hasValue_removeValue)
  show "latest (nodes ?w1 n) k = None" by (simp add: nodes_removeValue)
  show "valueSubscriptions (nodes ?w1 n) k = None" by (simp add: nodes_removeValue)
  show "Map_get k (values_map (nodes ?w2 n)) = Some v2" by (rule Map_get_addValue)
  have nl: "\<not> listens ?w1 n k v1" by (rule removeValue_unlistens_on [OF assms(2)])
  show nl1: "\<not> listens ?w2 n k v1"
    unfolding rep using listens_addValue_other [OF assms(3) nh] nl by simp
  show "latest (nodes (MotionValue_change v1 x ?w2) n) k = latest (nodes ?w2 n) k"
    using nl1 by (simp add: latest_change)
qed

text \<open>The proviso holds in every store built with fresh mounts only.\<close>

lemma disciplined_replace_binding:
  assumes "disciplined w" and "Map_get k (values_map (nodes w n)) = Some v1" and "v1 \<noteq> v2"
  shows "\<not> listens (addValue n k v2 w) n k v1"
proof (rule replace_binding(6) [OF assms(2) _ assms(3)])
  from disciplined_tracked [OF assms(1), of n k]
  show "\<forall>s. (s, OnChange n k) \<in> set (updateSubscribers (mvs w v1)) \<longrightarrow>
           (\<exists>r. valueSubscriptions (nodes w n) k = Some (Unsubscribe v1 s r))"
    by (simp add: tracked_def)
qed

subsection \<open>No own property named \<open>__proto__\<close>\<close>








subsection \<open>The example stores can be built\<close>



section \<open>The claims\<close>

text \<open>
  C1, evaluated on the code. Nodes 0 and 1 are mounted; node 0 has \<open>onUpdate\<close> and a
  value bound to \<open>x\<close>. A change of the value schedules the update of node 0, and both
  nodes schedule a render. Node 0 is unmounted, then the tick fires: the update of node 0
  does not run and the render of node 1 runs, as claimed, but the render of node 0 runs
  as well.
\<close>

theorem C1_render_survives_unmount:
  "map_sum id trace
     (run [DoNew None None, DoNew None None, DoNewMotionValue (Num 1),
           DoUpdateConfig 0 (Some \<lparr>onUpdate = Some 7\<rparr>), DoAddValue 0 ''x'' 0,
           DoRef 0 (Instance ()), DoRef 1 (Instance ()),
           DoChange 0 (Num 2), DoScheduleRender 0, DoScheduleRender 1,
           DoRef 0 Null, DoTick] (init_world :: unit world))
   = Inr [RenderCall 0, RenderCall 1] \<and>
   map_sum id (\<lambda>w. (updateQueue w, renderQueue w))
     (run [DoNew None None, DoNew None None, DoNewMotionValue (Num 1),
           DoUpdateConfig 0 (Some \<lparr>onUpdate = Some 7\<rparr>), DoAddValue 0 ''x'' 0,
           DoRef 0 (Instance ()), DoRef 1 (Instance ()),
           DoChange 0 (Num 2), DoScheduleRender 0, DoScheduleRender 1] (init_world :: unit world))
   = Inr ([Update 0], [TriggerRender 0, TriggerRender 1]) \<and>
   map_sum id (\<lambda>w. (updateQueue w, renderQueue w))
     (run [DoNew None None, DoNew None None, DoNewMotionValue (Num 1),
           DoUpdateConfig 0 (Some \<lparr>onUpdate = Some 7\<rparr>), DoAddValue 0 ''x'' 0,
           DoRef 0 (Instance ()), DoRef 1 (Instance ()),
           DoChange 0 (Num 2), DoScheduleRender 0, DoScheduleRender 1,
           DoRef 0 Null] (init_world :: unit world))
   = Inr ([], [TriggerRender 0, TriggerRender 1])"
  by (simp add: run_defs)

text \<open>
  C2, as amended: \<open>unmount\<close> (and \<open>ref\<close> on \<open>null\<close> or any other falsy value, which
  calls it) never raises an error, whatever the state of the node, and it has no guard on
  the mounted state. Its effect on the node is exact: the values map is emptied; for
  every key that was bound the entry of \<open>latest\<close> is deleted and the held closure is
  dropped, while the entries under keys that were not bound stay; no other field and no
  other node changes. Its effect on every motion value is exact as well: the reading
  stays, and the change and render subscribers are those that none of the closures held
  for a bound key cancels. So \<open>unmount\<close> leaves the nodes unchanged exactly when the node
  has no value binding (and then the motion values too), which is the case right after an
  unmount: a second \<open>unmount\<close> changes no node and no motion value.
\<close>

theorem C2_unmount_unmounted:
  "(\<forall>el. \<not> truthy el \<longrightarrow>
      (\<exists>w'. ref n el w = Inr w' \<and> nodes w' = nodes (unmount n w) \<and> mvs w' = mvs (unmount n w))) \<and>
   nodes (unmount n w) =
     (nodes w)(n := (nodes w n)\<lparr>values_map := [],
        latest := (\<lambda>k. if hasValue n k w then None else latest (nodes w n) k),
        valueSubscriptions :=
          (\<lambda>k. if hasValue n k w then None else valueSubscriptions (nodes w n) k)\<rparr>) \<and>
   (\<forall>m. reading (mvs (unmount n w) m) = reading (mvs w m) \<and>
        updateSubscribers (mvs (unmount n w) m) =
          filter (\<lambda>q. \<not> (\<exists>u \<in> set (held_closures w n). cancels_change u m (fst q)))
            (updateSubscribers (mvs w m)) \<and>
        renderSubscribers (mvs (unmount n w) m) =
          filter (\<lambda>q. \<not> (\<exists>u \<in> set (held_closures w n). cancels_render u m (fst q)))
            (renderSubscribers (mvs w m))) \<and>
   (values_map (nodes w n) = [] \<longleftrightarrow> nodes (unmount n w) = nodes w) \<and>
   (values_map (nodes w n) = [] \<longrightarrow> mvs (unmount n w) = mvs w) \<and>
   nodes (unmount n (unmount n w)) = nodes (unmount n w) \<and>
   mvs (unmount n (unmount n w)) = mvs (unmount n w)"
proof -
  have c1: "\<forall>el. \<not> truthy el \<longrightarrow>
      (\<exists>w'. ref n el w = Inr w' \<and> nodes w' = nodes (unmount n w) \<and> mvs w' = mvs (unmount n w))"
    using ref_falsy [of _ n w] by blast
  have c2: "nodes (unmount n w) =
     (nodes w)(n := (nodes w n)\<lparr>values_map := [],
        latest := (\<lambda>k. if hasValue n k w then None else latest (nodes w n) k),
        valueSubscriptions :=
          (\<lambda>k. if hasValue n k w then None else valueSubscriptions (nodes w n) k)\<rparr>)"
    by (rule nodes_unmount)
  have c3: "\<forall>m. reading (mvs (unmount n w) m) = reading (mvs w m) \<and>
        updateSubscribers (mvs (unmount n w) m) =
          filter (\<lambda>q. \<not> (\<exists>u \<in> set (held_closures w n). cancels_change u m (fst q)))
            (updateSubscribers (mvs w m)) \<and>
        renderSubscribers (mvs (unmount n w) m) =
          filter (\<lambda>q. \<not> (\<exists>u \<in> set (held_closures w n). cancels_render u m (fst q)))
            (renderSubscribers (mvs w m))"
    using reading_unmount [of n w] updateSubscribers_unmount [of n w]
      renderSubscribers_unmount [of n w] by blast
  have e: "values_map (nodes (unmount n w) n) = []" by (rule values_unmount)
  have c4: "values_map (nodes w n) = [] \<longleftrightarrow> nodes (unmount n w) = nodes w"
  proof
    assume "values_map (nodes w n) = []"
    then show "nodes (unmount n w) = nodes w" by (rule unmount_no_values)
  next
    assume "nodes (unmount n w) = nodes w"
    with e show "values_map (nodes w n) = []" by simp
  qed
  have c5: "values_map (nodes w n) = [] \<longrightarrow> mvs (unmount n w) = mvs w"
    by (simp add: mvs_unmount_no_values)
  have c6: "nodes (unmount n (unmount n w)) = nodes (unmount n w)"
    by (rule unmount_no_values [OF e])
  have c7: "mvs (unmount n (unmount n w)) = mvs (unmount n w)"
    by (rule mvs_unmount_no_values [OF e])
  show ?thesis by (intro conjI; fact)
qed

text \<open>
  The claim as stated fails on a node that was never mounted and has a value bound:
  \<open>unmount\<close> deletes the binding and its snapshot entry.
\<close>

theorem C2_counterexample:
  "run [DoNew None None, DoNewMotionValue (Num 1), DoAddValue 0 ''x'' 0] init_world = Inr bound_store \<and>
   element (nodes bound_store 0) = Undefined \<and>
   values_map (nodes bound_store 0) = [(''x'', 0)] \<and>
   latest (nodes bound_store 0) ''x'' = Some (Num 1) \<and>
   values_map (nodes (unmount 0 bound_store) 0) = [] \<and>
   latest (nodes (unmount 0 bound_store) 0) ''x'' = None"
  by (simp add: bound_store_def run_defs)

text \<open>
  A new node has no value binding and \<open>unmount\<close> leaves it as it is; so does the second
  of two calls of \<open>ref(null)\<close> on the node of \<open>bound_store\<close>, the first of which deletes
  the entry of \<open>latest\<close>. On the node of \<open>mounted_store\<close>, which is subscribed to the
  value bound to \<open>x\<close>, \<open>unmount\<close> cancels both subscriptions and drops the closure.
\<close>

theorem C2_unmount_unmounted_witness:
  "values_map (nodes (snd (new_VisualElement None None (init_world :: unit world))) 0) = [] \<and>
   nodes (unmount 0 (snd (new_VisualElement None None (init_world :: unit world)))) =
     nodes (snd (new_VisualElement None None (init_world :: unit world))) \<and>
   mvs (unmount 0 (snd (new_VisualElement None None (init_world :: unit world)))) =
     mvs (snd (new_VisualElement None None (init_world :: unit world))) \<and>
   \<not> truthy (Null :: unit elem) \<and>
   (\<exists>w1 w2. ref 0 Null bound_store = Inr w1 \<and> latest (nodes w1 0) ''x'' = None \<and>
      ref 0 Null w1 = Inr w2 \<and> nodes w2 = nodes w1) \<and>
   updateSubscribers (mvs mounted_store 0) = [(0, OnChange 0 ''x'')] \<and>
   renderSubscribers (mvs mounted_store 0) = [(1, ScheduleRender 0)] \<and>
   valueSubscriptions (nodes mounted_store 0) ''x'' = Some (Unsubscribe 0 0 1) \<and>
   updateSubscribers (mvs (unmount 0 mounted_store) 0) = [] \<and>
   renderSubscribers (mvs (unmount 0 mounted_store) 0) = [] \<and>
   latest (nodes (unmount 0 mounted_store) 0) ''x'' = None \<and>
   valueSubscriptions (nodes (unmount 0 mounted_store) 0) ''x'' = None"
proof -
  let ?w = "snd (new_VisualElement None None (init_world :: unit world))"
  have v: "values_map (nodes ?w 0) = []" by (simp add: run_defs)
  note th0 = C2_unmount_unmounted [of 0 ?w]
  from th0 v have a: "nodes (unmount 0 ?w) = nodes ?w" by blast
  from th0 v have a': "mvs (unmount 0 ?w) = mvs ?w" by blast
  have f: "\<not> truthy (Null :: unit elem)" by simp
  note thb = C2_unmount_unmounted [of 0 bound_store]
  from thb [THEN conjunct1] f
  obtain w1 where r1: "ref 0 Null bound_store = Inr w1"
    and n1: "nodes w1 = nodes (unmount 0 bound_store)" by blast
  have hb: "hasValue 0 ''x'' bound_store" by (simp add: bound_store_def run_defs)
  have l1: "latest (nodes w1 0) ''x'' = None"
    unfolding n1 by (subst thb [THEN conjunct2, THEN conjunct1]) (simp add: hb)
  have v1: "values_map (nodes w1 0) = []"
    unfolding n1 by (subst thb [THEN conjunct2, THEN conjunct1]) simp
  note th1 = C2_unmount_unmounted [of 0 w1]
  from th1 [THEN conjunct1] f
  obtain w2 where r2: "ref 0 Null w1 = Inr w2" and n2': "nodes w2 = nodes (unmount 0 w1)" by blast
  from th1 v1 have "nodes (unmount 0 w1) = nodes w1" by blast
  with n2' have n2: "nodes w2 = nodes w1" by simp
  from r1 l1 r2 n2 have b: "\<exists>w1 w2. ref 0 Null bound_store = Inr w1 \<and> latest (nodes w1 0) ''x'' = None \<and>
      ref 0 Null w1 = Inr w2 \<and> nodes w2 = nodes w1" by blast
  note tm = C2_unmount_unmounted [of 0 mounted_store]
  have us: "updateSubscribers (mvs mounted_store 0) = [(0, OnChange 0 ''x'')]"
    by (simp add: mounted_store_def run_defs)
  have rs: "renderSubscribers (mvs mounted_store 0) = [(1, ScheduleRender 0)]"
    by (simp add: mounted_store_def run_defs)
  have vs: "valueSubscriptions (nodes mounted_store 0) ''x'' = Some (Unsubscribe 0 0 1)"
    by (simp add: mounted_store_def run_defs)
  have hc: "held_closures mounted_store 0 = [Unsubscribe 0 0 1]"
    by (simp add: mounted_store_def run_defs)
  have hm: "hasValue 0 ''x'' mounted_store" by (simp add: mounted_store_def run_defs)
  from tm [THEN conjunct2, THEN conjunct2, THEN conjunct1, THEN spec, of 0]
  have u': "updateSubscribers (mvs (unmount 0 mounted_store) 0) = []"
    and r': "renderSubscribers (mvs (unmount 0 mounted_store) 0) = []"
    by (simp_all add: hc us rs)
  have l': "latest (nodes (unmount 0 mounted_store) 0) ''x'' = None"
    by (subst tm [THEN conjunct2, THEN conjunct1]) (simp add: hm)
  have s': "valueSubscriptions (nodes (unmount 0 mounted_store) 0) ''x'' = None"
    by (subst tm [THEN conjunct2, THEN conjunct1]) (simp add: hm)
  from v a a' f b us rs vs u' r' l' s' show ?thesis by (intro conjI)
qed

text \<open>
  C3, as amended: a new node holds no host instance; \<open>mount(instance)\<close> stores it;
  \<open>unmount\<close> (and \<open>ref\<close> on \<open>null\<close> or another falsy value) leave it in place, so
  \<open>getInstance\<close> still returns it afterwards. Over all calls, the handle of an existing
  node changes only in a \<open>mount\<close> of that node on an instance (called directly or through
  \<open>ref\<close>), which makes it present.
\<close>

theorem C3_host_instance:
  "getInstance (fst (new_VisualElement p r w)) (snd (new_VisualElement p r w)) = Undefined \<and>
   (\<forall>w'. mount n el w = Inr w' \<longrightarrow> getInstance n w' = el) \<and>
   getInstance n (unmount n w) = getInstance n w \<and>
   (\<forall>el' w'. \<not> truthy el' \<longrightarrow> ref n el' w = Inr w' \<longrightarrow> getInstance n w' = getInstance n w) \<and>
   (\<forall>a w'. step a w = Inr w' \<longrightarrow> n < next_node w \<longrightarrow> getInstance n w' \<noteq> getInstance n w \<longrightarrow>
      (\<exists>e'. truthy e' \<and> (a = DoMount n e' \<or> a = DoRef n e') \<and> getInstance n w' = e'))"
proof (intro conjI allI impI)
  show "getInstance (fst (new_VisualElement p r w)) (snd (new_VisualElement p r w)) = Undefined"
    by (simp add: getInstance_def new_VisualElement_def)
next
  fix w'
  assume "mount n el w = Inr w'"
  then show "getInstance n w' = el" by (simp add: getInstance_def element_mount)
next
  show "getInstance n (unmount n w) = getInstance n w"
    using kept_bindings [OF nodes_unmount_kept, of n w n] by (simp add: getInstance_def)
next
  fix el' w'
  assume "\<not> truthy el'" and "ref n el' w = Inr w'"
  with ref_falsy [of el' n w] kept_bindings [OF nodes_unmount_kept, of n w n]
  show "getInstance n w' = getInstance n w" by (auto simp: getInstance_def)
next
  fix a w'
  assume s: "step a w = Inr w'" and n: "n < next_node w"
    and ne: "getInstance n w' \<noteq> getInstance n w"
  from step_kept [OF s n] ne obtain e' where t: "truthy e'"
    and a: "a = DoMount n e' \<or> a = DoRef n e'"
    by (auto simp: getInstance_def)
  have "getInstance n w' = e'"
  proof -
    from a s t have "(\<exists>w1. mount n e' w = Inr w1 \<and> nodes w' = nodes w1)"
      using ref_truthy [of e' n w w'] by auto
    then show ?thesis by (auto simp: getInstance_def element_mount)
  qed
  with a t show "\<exists>e'. truthy e' \<and> (a = DoMount n e' \<or> a = DoRef n e') \<and> getInstance n w' = e'"
    by blast
qed

text \<open>
  The claim as stated fails: after a mount and an unmount the node still holds the
  instance.
\<close>

theorem C3_counterexample:
  "run [DoNew None None, DoNewMotionValue (Num 1), DoRef 0 (Instance ()), DoRef 0 Null] init_world
     = Inr unmounted_store \<and>
   getInstance 0 unmounted_store = Instance ()"
  by (simp add: unmounted_store_def run_defs)

text \<open>
  On the empty store: a new node has no instance, mounting gives it one (directly or
  through \<open>ref\<close>), and unmounting keeps it.
\<close>

theorem C3_host_instance_witness:
  "(\<exists>w1 w2 w3 w4.
      step (DoNew None None) (init_world :: unit world) = Inr w1 \<and> getInstance 0 w1 = Undefined \<and>
      0 < next_node w1 \<and>
      mount 0 (Instance ()) w1 = Inr w2 \<and> getInstance 0 w2 = Instance () \<and>
      \<not> truthy (Null :: unit elem) \<and>
      ref 0 Null w2 = Inr w3 \<and> getInstance 0 w3 = Instance () \<and>
      getInstance 0 (unmount 0 w2) = Instance () \<and>
      step (DoRef 0 (Instance ())) w1 = Inr w4 \<and> getInstance 0 w4 \<noteq> getInstance 0 w1 \<and>
      (\<exists>e'. truthy e' \<and> getInstance 0 w4 = e'))"
proof -
  let ?w1 = "snd (new_VisualElement None None (init_world :: unit world))"
  have s1: "step (DoNew None None) (init_world :: unit world) = Inr ?w1" by simp
  have f: "fst (new_VisualElement None None (init_world :: unit world)) = 0"
    by (simp add: run_defs)
  have nn: "0 < next_node ?w1" by (simp add: run_defs)
  have nt: "\<not> truthy (Null :: unit elem)" by simp
  from C3_host_instance [of None None "init_world :: unit world"] f
  have g1: "getInstance 0 ?w1 = Undefined" by metis
  note th = C3_host_instance [of None None ?w1 0 "Instance ()"]
  obtain w2 where m: "mount 0 (Instance ()) ?w1 = Inr w2" by (simp add: mount_truthy)
  with th have g2: "getInstance 0 w2 = Instance ()" by blast
  note th2 = C3_host_instance [of None None w2 0 "Instance ()"]
  obtain w3 where r: "ref 0 Null w2 = Inr w3" using ref_total by blast
  with th2 nt have "getInstance 0 w3 = getInstance 0 w2" by blast
  with g2 have g3: "getInstance 0 w3 = Instance ()" by simp
  from th2 have "getInstance 0 (unmount 0 w2) = getInstance 0 w2" by blast
  with g2 have g4: "getInstance 0 (unmount 0 w2) = Instance ()" by simp
  obtain w4 where s4: "step (DoRef 0 (Instance ())) ?w1 = Inr w4"
    using ref_total [of 0 "Instance ()" ?w1] by auto
  have ne: "getInstance 0 w4 \<noteq> getInstance 0 ?w1"
    using s4 by (auto simp: run_defs split: option.splits)
  from th s4 nn ne have g5: "\<exists>e'. truthy e' \<and> getInstance 0 w4 = e'" by blast
  from s1 g1 nn m g2 nt r g3 g4 s4 ne g5 show ?thesis by blast
qed




text \<open>
  C5, evaluated on the code. A node is mounted and unmounted; \<open>addValue(x, v1)\<close>
  subscribes at once, since the instance is still held, and the next mount subscribes to
  \<open>v1\<close> again: \<open>subscribeToValue\<close> stores the new closure over the old one without
  calling it, so \<open>v1\<close> carries two \<open>onChange\<close> subscriptions of the node for \<open>x\<close>
  (numbers 0 and 2) and the node holds the closure of the second only. \<open>addValue(x, v2)\<close>
  runs \<open>removeValue\<close>, which calls that closure: subscription 2 is cancelled and
  subscription 0 stays. \<open>x\<close> is now bound to \<open>v2\<close> and \<open>latest[x]\<close> is its reading 2,
  and a change of \<open>v1\<close> to 7 overwrites \<open>latest[x]\<close>. The same happens when the two
  \<open>addValue\<close> calls follow each other directly (second run).
\<close>

theorem C5_stale_subscription:
  "map_sum id (\<lambda>w. (updateSubscribers (mvs w 0), valueSubscriptions (nodes w 0) ''x''))
     (run [DoNew None None, DoNewMotionValue (Num 1), DoNewMotionValue (Num 2),
           DoRef 0 (Instance ()), DoRef 0 Null, DoAddValue 0 ''x'' 0, DoRef 0 (Instance ())]
        (init_world :: unit world))
   = Inr ([(0, OnChange 0 ''x''), (2, OnChange 0 ''x'')], Some (Unsubscribe 0 2 3)) \<and>
   run [DoNew None None, DoNewMotionValue (Num 1), DoNewMotionValue (Num 2),
        DoRef 0 (Instance ()), DoRef 0 Null, DoAddValue 0 ''x'' 0, DoRef 0 (Instance ()),
        DoAddValue 0 ''x'' 1] init_world = Inr resubscribed_store \<and>
   updateSubscribers (mvs resubscribed_store 0) = [(0, OnChange 0 ''x'')] \<and>
   Map_get ''x'' (values_map (nodes resubscribed_store 0)) = Some 1 \<and>
   MotionValue_get 1 resubscribed_store = Num 2 \<and>
   latest (nodes resubscribed_store 0) ''x'' = Some (Num 2) \<and>
   latest (nodes (MotionValue_change 0 (Num 7) resubscribed_store) 0) ''x'' = Some (Num 7) \<and>
   map_sum id (\<lambda>w. (Map_get ''x'' (values_map (nodes w 0)), latest (nodes w 0) ''x''))
     (run [DoNew None None, DoNewMotionValue (Num 1), DoNewMotionValue (Num 2),
           DoRef 0 (Instance ()), DoRef 0 Null, DoAddValue 0 ''x'' 0, DoRef 0 (Instance ()),
           DoAddValue 0 ''x'' 0, DoAddValue 0 ''x'' 1] (init_world :: unit world))
   = Inr (Some 1, Some (Num 2)) \<and>
   map_sum id (\<lambda>w. (Map_get ''x'' (values_map (nodes w 0)), latest (nodes w 0) ''x''))
     (run [DoNew None None, DoNewMotionValue (Num 1), DoNewMotionValue (Num 2),
           DoRef 0 (Instance ()), DoRef 0 Null, DoAddValue 0 ''x'' 0, DoRef 0 (Instance ()),
           DoAddValue 0 ''x'' 0, DoAddValue 0 ''x'' 1, DoChange 0 (Num 7)] (init_world :: unit world))
   = Inr (Some 1, Some (Num 7))"
  by (simp add: resubscribed_store_def run_defs)










text \<open>
  C9: a node constructed with no parent has depth 0, one constructed with a parent has
  the parent's depth plus 1; no sequence of calls changes the depth of a node that exists;
  and of \<open>N > 0\<close> nested constructions, each given the previous node as parent, the last
  node has depth \<open>N - 1\<close>.
\<close>

theorem C9_depth:
  "depth (nodes (snd (new_VisualElement None r w)) (fst (new_VisualElement None r w))) = 0 \<and>
   depth (nodes (snd (new_VisualElement (Some p) r w)) (fst (new_VisualElement (Some p) r w))) =
     depth (nodes w p) + 1 \<and>
   (\<forall>as w'. run as w = Inr w' \<longrightarrow> n < next_node w \<longrightarrow> depth (nodes w' n) = depth (nodes w n)) \<and>
   (0 < N \<longrightarrow>
      (\<exists>l. fst (nest N None w) = Some l \<and> depth (nodes (snd (nest N None w)) l) = N - 1))"
proof (intro conjI allI impI)
  show "depth (nodes (snd (new_VisualElement None r w)) (fst (new_VisualElement None r w))) = 0"
    by (simp add: new_VisualElement_def)
next
  show "depth (nodes (snd (new_VisualElement (Some p) r w)) (fst (new_VisualElement (Some p) r w))) =
     depth (nodes w p) + 1"
    by (simp add: new_VisualElement_def)
next
  fix as w'
  assume "run as w = Inr w'" and "n < next_node w"
  from run_kept [OF this] show "depth (nodes w' n) = depth (nodes w n)"
    by (simp add: readonly_fields_def)
next
  assume "0 < N"
  from nest_depth [OF this, of None w]
  show "\<exists>l. fst (nest N None w) = Some l \<and> depth (nodes (snd (nest N None w)) l) = N - 1"
    by simp
qed

text \<open>
  Three nested constructions on the empty store give a node of depth 2, and the depth of
  the second node (depth 1) survives binding a value to it, mounting and unmounting it,
  a change of the value and a tick.
\<close>

theorem C9_depth_witness:
  "(0::nat) < 3 \<and>
   (\<exists>l. fst (nest 3 None (init_world :: unit world)) = Some l \<and>
        depth (nodes (snd (nest 3 None (init_world :: unit world))) l) = 2) \<and>
   (1::nat) < next_node (snd (nest 3 None (init_world :: unit world))) \<and>
   (\<exists>w'. run [DoNewMotionValue (Num 1), DoAddValue 1 ''x'' 0, DoRef 1 (Instance ()), DoChange 0 (Num 2),
              DoRef 1 Null, DoTick] (snd (nest 3 None (init_world :: unit world))) = Inr w' \<and>
         depth (nodes w' 1) = 1)"
proof -
  let ?w = "snd (nest 3 None (init_world :: unit world))"
  let ?as = "[DoNewMotionValue (Num 1), DoAddValue 1 ''x'' 0, DoRef 1 (Instance ()), DoChange 0 (Num 2),
              DoRef 1 Null, DoTick] :: unit action list"
  have three: "nest 3 None (init_world :: unit world) =
      nest 0 (Some 2) (snd (new_VisualElement (Some 1) None (snd (new_VisualElement (Some 0) None
        (snd (new_VisualElement None None (init_world :: unit world)))))))"
    by (simp add: numeral_3_eq_3 new_VisualElement_def init_world_def)
  have nn: "(1::nat) < next_node ?w" unfolding three by (simp add: run_defs)
  have d1: "depth (nodes ?w 1) = 1" unfolding three by (simp add: run_defs)
  obtain w' where r: "run ?as ?w = Inr w'"
    unfolding three by (simp add: run_defs)
  from C9_depth [of None "init_world :: unit world" 0 1 3]
  have a: "\<exists>l. fst (nest 3 None (init_world :: unit world)) = Some l \<and>
        depth (nodes (snd (nest 3 None (init_world :: unit world))) l) = 2"
    by simp
  from C9_depth [of None ?w 0 1 3]
  have "run ?as ?w = Inr w' \<longrightarrow> 1 < next_node ?w \<longrightarrow> depth (nodes w' 1) = depth (nodes ?w 1)"
    by blast
  with r nn have "depth (nodes w' 1) = depth (nodes ?w 1)" by blast
  with d1 have dd: "depth (nodes w' 1) = 1" by simp
  have z: "(0::nat) < 3" by simp
  from z a nn r dd show ?thesis by blast
qed

text \<open>
  C10: the pre-bound \<open>update\<close> calls \<open>config.onUpdate\<close> unguarded, so it throws exactly
  when \<open>onUpdate\<close> is absent. When a value-change notification has scheduled the update
  (the node listens and \<open>onUpdate\<close> is set) and \<open>updateConfig\<close> then installs a config
  without \<open>onUpdate\<close> (no argument, or an object lacking the option), the pending entry
  survives and the tick throws. A tick throws a \<open>TypeError\<close> exactly when some queued
  update belongs to a node whose \<open>onUpdate\<close> is absent at that moment.
\<close>

theorem C10_pending_update_throws:
  "(update n w = Inl TypeError \<longleftrightarrow> onUpdate (config (nodes w n)) = None) \<and>
   (listens w n k m \<and> onUpdate (config (nodes w n)) \<noteq> None \<longrightarrow>
      Update n \<in> set (updateQueue (MotionValue_change m x w)) \<and>
      tick (updateConfig n None (MotionValue_change m x w)) = Inl TypeError \<and>
      tick (updateConfig n (Some \<lparr>onUpdate = None\<rparr>) (MotionValue_change m x w)) = Inl TypeError) \<and>
   (tick w = Inl TypeError \<longleftrightarrow>
      (\<exists>n'. Update n' \<in> set (updateQueue w @ renderQueue w) \<and>
            onUpdate (config (nodes w n')) = None))"
proof (intro conjI impI)
  show "update n w = Inl TypeError \<longleftrightarrow> onUpdate (config (nodes w n)) = None"
    by (simp add: update_def split: option.splits)
next
  assume a: "listens w n k m \<and> onUpdate (config (nodes w n)) \<noteq> None"
  let ?w1 = "MotionValue_change m x w"
  from a show q: "Update n \<in> set (updateQueue ?w1)" by (blast intro: updateQueue_change)
  have "\<And>c. onUpdate (case c of None \<Rightarrow> \<lparr>onUpdate = None\<rparr> | Some c' \<Rightarrow> c') = None \<Longrightarrow>
      tick (updateConfig n c ?w1) = Inl TypeError"
  proof -
    fix c :: "config option"
    assume "onUpdate (case c of None \<Rightarrow> \<lparr>onUpdate = None\<rparr> | Some c' \<Rightarrow> c') = None"
    then have "onUpdate (config (nodes (updateConfig n c ?w1) n)) = None"
      by (simp add: nodes_updateConfig)
    moreover have "Update n \<in> set (updateQueue (updateConfig n c ?w1) @ renderQueue (updateConfig n c ?w1))"
      using q by (simp add: queues_updateConfig)
    ultimately show "tick (updateConfig n c ?w1) = Inl TypeError"
      unfolding tick_TypeError_iff by blast
  qed
  from this [of None] this [of "Some \<lparr>onUpdate = None\<rparr>"]
  show "tick (updateConfig n None ?w1) = Inl TypeError"
    and "tick (updateConfig n (Some \<lparr>onUpdate = None\<rparr>) ?w1) = Inl TypeError"
    by simp_all
next
  show "tick w = Inl TypeError \<longleftrightarrow>
      (\<exists>n'. Update n' \<in> set (updateQueue w @ renderQueue w) \<and>
            onUpdate (config (nodes w n')) = None)"
    by (rule tick_TypeError_iff)
qed

text \<open>
  A node with \<open>onUpdate\<close> set, mounted with a value bound to \<open>x\<close>: it listens to the
  value, a change schedules its update, and the tick after \<open>updateConfig()\<close> throws,
  while the tick without the replacement returns.
\<close>

theorem C10_pending_update_throws_witness:
  "listens updating_store 0 ''x'' 0 \<and> onUpdate (config (nodes updating_store 0)) \<noteq> None \<and>
   Update 0 \<in> set (updateQueue (MotionValue_change 0 (Num 2) updating_store)) \<and>
   tick (updateConfig 0 None (MotionValue_change 0 (Num 2) updating_store)) = Inl TypeError \<and>
   (\<exists>w'. tick (MotionValue_change 0 (Num 2) updating_store) = Inr w')"
proof -
  have l: "listens updating_store 0 ''x'' 0" by (simp add: updating_store_def run_defs)
  have c: "onUpdate (config (nodes updating_store 0)) \<noteq> None" by (simp add: updating_store_def run_defs)
  from C10_pending_update_throws [of 0 updating_store "''x''" 0 "Num 2"] l c
  have q: "Update 0 \<in> set (updateQueue (MotionValue_change 0 (Num 2) updating_store))"
    and t: "tick (updateConfig 0 None (MotionValue_change 0 (Num 2) updating_store)) = Inl TypeError"
    by blast+
  have "\<exists>w'. tick (MotionValue_change 0 (Num 2) updating_store) = Inr w'"
    by (simp add: updating_store_def run_defs)
  with l c q t show ?thesis by blast
qed

end
